theory Spec2Isabelle
  imports Main
begin

section \<open>The equivalence-class tracker of models/equivalence_classes.py\<close>

subsection \<open>Errors and outcomes of a call\<close>

text \<open>
  The source raises \<^verbatim>\<open>ValueError\<close> with a message text, a dictionary lookup of a
  missing key raises \<^verbatim>\<open>KeyError\<close>, and a list read or write outside the list raises
  \<^verbatim>\<open>IndexError\<close>. The kind of an error is its exception class.
\<close>

datatype error = ValueError string | KeyError | IndexError

datatype error_kind = ValueError_kind | KeyError_kind | IndexError_kind

fun kind_of :: "error \<Rightarrow> error_kind" where
  "kind_of (ValueError msg) = ValueError_kind"
| "kind_of KeyError = KeyError_kind"
| "kind_of IndexError = IndexError_kind"

text \<open>
  A call that comes back either returns a value or raises; in both cases the object is
  left in some state, which the outcome carries, so that what a failing call did to the
  object can be stated. A call that never comes back has no outcome (\<open>None\<close>).
\<close>

datatype ('r, 's) outcome = Returned 'r 's | Raised error 's

fun state_after :: "('r, 's) outcome \<Rightarrow> 's" where
  "state_after (Returned r s) = s"
| "state_after (Raised e s) = s"

fun and_then ::
  "('r, 's) outcome option \<Rightarrow> ('r \<Rightarrow> 's \<Rightarrow> ('q, 's) outcome option) \<Rightarrow> ('q, 's) outcome option"
where
  "and_then None f = None"
| "and_then (Some (Raised e s)) f = Some (Raised e s)"
| "and_then (Some (Returned r s)) f = f r s"

text \<open>The kind of the error a call raised, if it raised.\<close>

definition raised_kind :: "('r, 's) outcome option \<Rightarrow> error_kind option" where
  "raised_kind out = (case out of Some (Raised e s) \<Rightarrow> Some (kind_of e) | _ \<Rightarrow> None)"

subsection \<open>Graph vertices\<close>

text \<open>
  Modelled from the spec: the vertex class \<^verbatim>\<open>Node\<close> is imported from the module
  \<^verbatim>\<open>node\<close>, which is not among the sources. The specification gives a vertex the
  identifier it was constructed with and two mutable sets of vertex references,
  \<^verbatim>\<open>destinations\<close> (outgoing) and \<^verbatim>\<open>sources\<close> (incoming), with idempotent insertion;
  a fresh vertex has no neighbours. Vertex objects are shared by reference; a
  reference is the position of the object in the list \<^verbatim>\<open>_nodes\<close>, which is the only place
  where vertices are created and which is never shortened or overwritten by another
  object.
\<close>

record 'a node =
  node_identifier :: 'a
  destinations :: "nat set"
  sources :: "nat set"

definition Node :: "'a \<Rightarrow> 'a node" where
  "Node x = \<lparr>node_identifier = x, destinations = {}, sources = {}\<rparr>"

subsection \<open>The object state\<close>

text \<open>
  The five attributes of an \<^verbatim>\<open>EquivalenceClasses\<close> object. Slot numbers are natural
  numbers: the only values ever written into \<^verbatim>\<open>_roots\<close> or the identifier index are
  lengths of a list and values read from \<^verbatim>\<open>_roots\<close>, so no negative index occurs. The
  sizes and the counter are Python integers.
\<close>

record 'a equivalence_classes =
  roots :: "nat list"
  nodes :: "'a node list"
  identifiers :: "'a \<rightharpoonup> nat"
  sizes :: "int list"
  count_field :: int

text \<open>\<^verbatim>\<open>__init__\<close>\<close>

definition init :: "'a equivalence_classes" where
  "init = \<lparr>roots = [], nodes = [], identifiers = Map.empty, sizes = [], count_field = 0\<rparr>"

text \<open>\<^verbatim>\<open>__contains__\<close>\<close>

definition contains :: "'a equivalence_classes \<Rightarrow> 'a \<Rightarrow> bool" where
  "contains s x = (identifiers s x \<noteq> None)"

text \<open>The property \<^verbatim>\<open>count\<close>\<close>

definition count :: "'a equivalence_classes \<Rightarrow> int" where
  "count s = count_field s"

text \<open>
  \<^verbatim>\<open>_find_root\<close>: the loop reads \<^verbatim>\<open>_roots[current]\<close>, then \<^verbatim>\<open>_roots[_roots[current]]\<close>,
  writes the latter into slot \<^verbatim>\<open>current\<close> and moves to the value just written. A read
  outside the list raises; a cycle among the links makes the loop run forever.
\<close>

partial_function (option) find_root ::
  "'a equivalence_classes \<Rightarrow> nat \<Rightarrow> (nat, 'a equivalence_classes) outcome option"
where
  "find_root s current_item_idx =
     (if \<not> current_item_idx < length (roots s) then Some (Raised IndexError s)
      else if current_item_idx = roots s ! current_item_idx
        then Some (Returned current_item_idx s)
      else if \<not> roots s ! current_item_idx < length (roots s) then Some (Raised IndexError s)
      else find_root
             (s\<lparr>roots := (roots s)[current_item_idx := roots s ! (roots s ! current_item_idx)]\<rparr>)
             ((roots s)[current_item_idx := roots s ! (roots s ! current_item_idx)]
                ! current_item_idx))"

declare find_root.simps [code]

definition add :: "'a equivalence_classes \<Rightarrow> 'a \<Rightarrow> (unit, 'a equivalence_classes) outcome" where
  "add s x =
     (if identifiers s x \<noteq> None
      then Raised (ValueError ''Item already exists within EquivalenceClasses'') s
      else let new_item_index = length (roots s)
           in Returned ()
                (s\<lparr>roots := roots s @ [new_item_index],
                   nodes := nodes s @ [Node x],
                   sizes := sizes s @ [1],
                   identifiers := (identifiers s)(x \<mapsto> new_item_index),
                   count_field := count_field s + 1\<rparr>))"

definition find_ec ::
  "'a equivalence_classes \<Rightarrow> 'a \<Rightarrow> (nat, 'a equivalence_classes) outcome option"
where
  "find_ec s x =
     (case identifiers s x of
        None \<Rightarrow> Some (Raised KeyError s)
      | Some item_idx \<Rightarrow> find_root s item_idx)"

text \<open>
  \<^verbatim>\<open>union\<close>: both identifiers are checked, both roots are resolved (the second on the
  list as the first resolution left it), and distinct roots are linked by size. The
  comparison reads both sizes before anything is written.
\<close>

definition union_ec ::
  "'a equivalence_classes \<Rightarrow> 'a \<Rightarrow> 'a \<Rightarrow> (unit, 'a equivalence_classes) outcome option"
where
  "union_ec s identifier_one identifier_two =
     (case (identifiers s identifier_one, identifiers s identifier_two) of
        (Some item_one_idx, Some item_two_idx) \<Rightarrow>
          and_then (find_root s item_one_idx) (\<lambda>root_one s1.
          and_then (find_root s1 item_two_idx) (\<lambda>root_two s2.
            if root_one = root_two then Some (Returned () s2)
            else if \<not> (root_one < length (sizes s2) \<and> root_two < length (sizes s2))
              then Some (Raised IndexError s2)
            else if sizes s2 ! root_one < sizes s2 ! root_two
              then (if \<not> root_one < length (roots s2) then Some (Raised IndexError s2)
                    else Some (Returned ()
                      (s2\<lparr>roots := (roots s2)[root_one := root_two],
                          sizes := (sizes s2)[root_two := sizes s2 ! root_two + sizes s2 ! root_one],
                          count_field := count_field s2 - 1\<rparr>)))
            else (if \<not> root_two < length (roots s2) then Some (Raised IndexError s2)
                  else Some (Returned ()
                    (s2\<lparr>roots := (roots s2)[root_two := root_one],
                        sizes := (sizes s2)[root_one := sizes s2 ! root_one + sizes s2 ! root_two],
                        count_field := count_field s2 - 1\<rparr>)))))
      | _ \<Rightarrow>
          Some (Raised
            (ValueError
              ''Both union identifiers must already exist within an equivalence class'')
            s))"

text \<open>\<^verbatim>\<open>get_node\<close> returns the vertex object stored for the identifier, by reference.\<close>

definition get_node ::
  "'a equivalence_classes \<Rightarrow> 'a \<Rightarrow> (nat, 'a equivalence_classes) outcome"
where
  "get_node s x =
     (case identifiers s x of
        None \<Rightarrow> Raised (ValueError ''Identifier not tracked by equivalence classes'') s
      | Some idx \<Rightarrow> if idx < length (nodes s) then Returned idx s else Raised IndexError s)"

text \<open>
  \<^verbatim>\<open>connect\<close>: the union, the two vertex lookups, and the two insertions. The second
  insertion reads the vertex store after the first has written it, so a self-loop
  sees its own first insertion.
\<close>

definition connect ::
  "'a equivalence_classes \<Rightarrow> 'a \<Rightarrow> 'a \<Rightarrow> (unit, 'a equivalence_classes) outcome option"
where
  "connect s source destination =
     and_then (union_ec s source destination) (\<lambda>_ s1.
     and_then (Some (get_node s1 source)) (\<lambda>source_node s2.
     and_then (Some (get_node s2 destination)) (\<lambda>destination_node s3.
       let ns1 = (nodes s3)[source_node :=
                   (nodes s3 ! source_node)
                     \<lparr>destinations :=
                        insert destination_node (destinations (nodes s3 ! source_node))\<rparr>];
           ns2 = ns1[destination_node :=
                   (ns1 ! destination_node)
                     \<lparr>sources := insert source_node (sources (ns1 ! destination_node))\<rparr>]
       in Some (Returned () (s3\<lparr>nodes := ns2\<rparr>)))))"

subsection \<open>Sequences of calls\<close>

datatype 'a call = Add 'a | Find 'a | Union 'a 'a | Connect 'a 'a | GetNode 'a

text \<open>
  The state an object is left in by one call, whether the call returned or raised
  (the caller may catch the exception and go on using the object).
\<close>

fun exec :: "'a equivalence_classes \<Rightarrow> 'a call \<Rightarrow> 'a equivalence_classes option" where
  "exec s (Add x) = Some (state_after (add s x))"
| "exec s (Find x) = map_option state_after (find_ec s x)"
| "exec s (Union x y) = map_option state_after (union_ec s x y)"
| "exec s (Connect x y) = map_option state_after (connect s x y)"
| "exec s (GetNode x) = Some (state_after (get_node s x))"

fun run :: "'a equivalence_classes \<Rightarrow> 'a call list \<Rightarrow> 'a equivalence_classes option" where
  "run s [] = Some s"
| "run s (c # cs) = (case exec s c of None \<Rightarrow> None | Some s' \<Rightarrow> run s' cs)"

definition reachable :: "'a equivalence_classes \<Rightarrow> bool" where
  "reachable s = (\<exists>cs. run init cs = Some s)"

text \<open>
  The comparison \<^verbatim>\<open>find(x) == find(y)\<close> as a caller evaluates it: the left call first,
  the right call on the object as the left call left it.
\<close>

definition same_class :: "'a equivalence_classes \<Rightarrow> 'a \<Rightarrow> 'a \<Rightarrow> bool option" where
  "same_class s x y =
     (case find_ec s x of
        Some (Returned r1 s1) \<Rightarrow>
          (case find_ec s1 y of
             Some (Returned r2 s2) \<Rightarrow> Some (r1 = r2)
           | _ \<Rightarrow> None)
      | _ \<Rightarrow> None)"

subsection \<open>The forest of parent links\<close>

text \<open>Slot \<open>r\<close> is the root that the links lead to from slot \<open>i\<close>.\<close>

inductive root_of :: "nat list \<Rightarrow> nat \<Rightarrow> nat \<Rightarrow> bool" for rs :: "nat list" where
  root_of_self: "i < length rs \<Longrightarrow> rs ! i = i \<Longrightarrow> root_of rs i i"
| root_of_parent: "i < length rs \<Longrightarrow> rs ! i \<noteq> i \<Longrightarrow> root_of rs (rs ! i) r \<Longrightarrow> root_of rs i r"

text \<open>
  A height function certifies the forest: every link stays inside the list and leads
  to a slot of smaller height.
\<close>

definition ranked :: "(nat \<Rightarrow> nat) \<Rightarrow> nat list \<Rightarrow> bool" where
  "ranked h rs = (\<forall>i < length rs. rs ! i < length rs \<and> (rs ! i \<noteq> i \<longrightarrow> h (rs ! i) < h i))"

definition forest :: "nat list \<Rightarrow> bool" where
  "forest rs = (\<exists>h. ranked h rs)"

text \<open>The number of root slots, counted by a scan of the list.\<close>

definition num_roots :: "nat list \<Rightarrow> nat" where
  "num_roots rs = length (filter (\<lambda>i. rs ! i = i) [0 ..< length rs])"

text \<open>
  The trace of the loop of \<^verbatim>\<open>_find_root\<close> started at slot \<open>i\<close> on the list \<open>rs\<close>: the
  successive values of \<^verbatim>\<open>current_item_idx\<close>, the last one being the slot returned.
\<close>

inductive visits :: "nat list \<Rightarrow> nat \<Rightarrow> nat list \<Rightarrow> bool" where
  visits_root: "i < length rs \<Longrightarrow> rs ! i = i \<Longrightarrow> visits rs i [i]"
| visits_step: "i < length rs \<Longrightarrow> rs ! i \<noteq> i \<Longrightarrow> rs ! i < length rs \<Longrightarrow>
     visits (rs[i := rs ! (rs ! i)]) (rs[i := rs ! (rs ! i)] ! i) vs \<Longrightarrow> visits rs i (i # vs)"

text \<open>The slots whose links lead to the root \<open>r\<close>, and the sizes recorded for roots.\<close>

definition class_of :: "nat list \<Rightarrow> nat \<Rightarrow> nat set" where
  "class_of rs r = {k. root_of rs k r}"

text \<open>Two slots are joined when their links lead to the same root.\<close>

definition joined :: "nat list \<Rightarrow> nat \<Rightarrow> nat \<Rightarrow> bool" where
  "joined rs k l = (\<exists>r. root_of rs k r \<and> root_of rs l r)"

definition sizes_ok :: "nat list \<Rightarrow> int list \<Rightarrow> bool" where
  "sizes_ok rs szs = (\<forall>r. root_of rs r r \<longrightarrow> szs ! r = int (card (class_of rs r)))"

subsection \<open>The invariant of the object\<close>

text \<open>
  The three lists have one entry per slot, the identifier index maps exactly the
  identifier of each slot's vertex to the slot, the links form a forest, the counter is
  the number of roots, each root records the size of its class, and the adjacency sets
  hold references to existing vertices and mirror each other.
\<close>

definition wf_ids :: "'a equivalence_classes \<Rightarrow> bool" where
  "wf_ids s =
     (length (nodes s) = length (roots s) \<and> length (sizes s) = length (roots s) \<and>
      (\<forall>x i. identifiers s x = Some i \<longrightarrow>
         i < length (roots s) \<and> node_identifier (nodes s ! i) = x) \<and>
      (\<forall>i < length (roots s). identifiers s (node_identifier (nodes s ! i)) = Some i))"

definition edges_ok :: "'a node list \<Rightarrow> bool" where
  "edges_ok ns =
     (\<forall>i < length ns.
        (\<forall>j \<in> destinations (ns ! i). j < length ns \<and> i \<in> sources (ns ! j)) \<and>
        (\<forall>j \<in> sources (ns ! i). j < length ns \<and> i \<in> destinations (ns ! j)))"

definition invar :: "'a equivalence_classes \<Rightarrow> bool" where
  "invar s =
     (wf_ids s \<and> forest (roots s) \<and> count_field s = int (num_roots (roots s)) \<and>
      sizes_ok (roots s) (sizes s) \<and> edges_ok (nodes s))"

text \<open>
  Abbreviations for the states that \<^verbatim>\<open>union\<close> and \<^verbatim>\<open>connect\<close> produce: root \<open>lo\<close>
  attached under root \<open>hi\<close>, and the edge from vertex \<open>i\<close> to vertex \<open>j\<close> recorded.
\<close>

definition linked ::
  "'a equivalence_classes \<Rightarrow> nat list \<Rightarrow> nat \<Rightarrow> nat \<Rightarrow> 'a equivalence_classes"
where
  "linked s rs lo hi =
     s\<lparr>roots := rs[lo := hi], sizes := (sizes s)[hi := sizes s ! hi + sizes s ! lo],
       count_field := count_field s - 1\<rparr>"

definition add_edge :: "'a node list \<Rightarrow> nat \<Rightarrow> nat \<Rightarrow> 'a node list" where
  "add_edge ns i j =
     (let ns1 = ns[i := (ns ! i)\<lparr>destinations := insert j (destinations (ns ! i))\<rparr>]
      in ns1[j := (ns1 ! j)\<lparr>sources := insert i (sources (ns1 ! j))\<rparr>])"

subsection \<open>Two concrete runs\<close>

text \<open>
  Four blocks; edges \<open>B1 \<rightarrow> B2\<close>, \<open>B3 \<rightarrow> B4\<close> and \<open>B4 \<rightarrow> B1\<close>. After these calls the links are
  \<open>[2, 0, 2, 2]\<close>: slot 1 is two links away from its root.
\<close>

definition example_calls :: "string call list" where
  "example_calls =
     [Add ''B1'', Add ''B2'', Add ''B3'', Add ''B4'',
      Connect ''B1'' ''B2'', Connect ''B3'' ''B4'', Connect ''B4'' ''B1'']"

definition example_state :: "string equivalence_classes" where
  "example_state = the (run init example_calls)"

text \<open>
  Four blocks and the single edge \<open>B1 \<rightarrow> B2\<close>: the classes are \<open>{B1, B2}\<close>, \<open>{B3}\<close> and
  \<open>{B4}\<close>, with links \<open>[0, 0, 2, 3]\<close>.
\<close>

definition small_calls :: "string call list" where
  "small_calls = [Add ''B1'', Add ''B2'', Add ''B3'', Add ''B4'', Connect ''B1'' ''B2'']"

definition small_state :: "string equivalence_classes" where
  "small_state = the (run init small_calls)"

section \<open>Properties of the forest of links\<close>

lemma root_of_bound: "root_of rs i r \<Longrightarrow> i < length rs \<and> r < length rs \<and> rs ! r = r"
  by (induction rule: root_of.induct) auto

lemma root_of_det: "root_of rs i r \<Longrightarrow> root_of rs i r' \<Longrightarrow> r = r'"
proof (induction arbitrary: r' rule: root_of.induct)
  case (root_of_self i)
  from root_of_self.prems root_of_self.hyps show ?case
    by (cases rule: root_of.cases) auto
next
  case (root_of_parent i r)
  from root_of_parent.prems root_of_parent.hyps(2) have "root_of rs (rs ! i) r'"
    by (cases rule: root_of.cases) auto
  then show ?case by (rule root_of_parent.IH)
qed

lemma root_of_at_root: "r < length rs \<Longrightarrow> rs ! r = r \<Longrightarrow> root_of rs r x \<longleftrightarrow> x = r"
  using root_of_det root_of_self by blast

lemma root_of_total:
  assumes "ranked h rs" "i < length rs"
  shows "\<exists>r. root_of rs i r"
  using assms(2)
proof (induction "h i" arbitrary: i rule: less_induct)
  case less
  show ?case
  proof (cases "rs ! i = i")
    case True
    with less.prems show ?thesis by (blast intro: root_of_self)
  next
    case False
    with assms(1) less.prems have "rs ! i < length rs" "h (rs ! i) < h i"
      by (auto simp: ranked_def)
    with less.hyps obtain r where "root_of rs (rs ! i) r" by blast
    with less.prems False show ?thesis by (blast intro: root_of_parent)
  qed
qed

lemma ranked_halve:
  assumes "ranked h rs" "i < length rs" "rs ! i \<noteq> i"
  shows "ranked h (rs[i := rs ! (rs ! i)])"
proof -
  let ?p = "rs ! i" and ?g = "rs ! (rs ! i)"
  from assms have p: "?p < length rs" "h ?p < h i" by (auto simp: ranked_def)
  with assms(1) have g: "?g < length rs" "h ?g \<le> h ?p"
    by (auto simp: ranked_def intro: less_imp_le)
  show ?thesis
    unfolding ranked_def
  proof (intro allI impI)
    fix k assume "k < length (rs[i := ?g])"
    then have k: "k < length rs" by simp
    show "rs[i := ?g] ! k < length (rs[i := ?g]) \<and>
          (rs[i := ?g] ! k \<noteq> k \<longrightarrow> h (rs[i := ?g] ! k) < h k)"
    proof (cases "k = i")
      case True
      with assms(2) g p show ?thesis by simp
    next
      case False
      with assms(1) k show ?thesis by (simp add: ranked_def)
    qed
  qed
qed

lemma halve_grand_neq:
  assumes "ranked h rs" "i < length rs" "rs ! i \<noteq> i"
  shows "rs ! (rs ! i) \<noteq> i"
proof -
  from assms have p: "rs ! i < length rs" "h (rs ! i) < h i" by (auto simp: ranked_def)
  with assms(1) have "h (rs ! (rs ! i)) \<le> h (rs ! i)"
    by (cases "rs ! (rs ! i) = rs ! i") (auto simp: ranked_def intro: less_imp_le)
  with p show ?thesis by auto
qed

lemma root_of_halve_fwd:
  assumes rk: "ranked h rs" and i: "i < length rs" "rs ! i \<noteq> i"
  shows "root_of rs k r \<Longrightarrow> root_of (rs[i := rs ! (rs ! i)]) k r"
proof (induction rule: root_of.induct)
  case (root_of_self k)
  with i have "k \<noteq> i" by blast
  with root_of_self have "k < length (rs[i := rs ! (rs ! i)])" "rs[i := rs ! (rs ! i)] ! k = k"
    by simp_all
  then show ?case by (rule root_of.root_of_self)
next
  case (root_of_parent k r)
  let ?rs' = "rs[i := rs ! (rs ! i)]"
  show ?case
  proof (cases "k = i")
    case False
    with root_of_parent have "k < length ?rs'" "?rs' ! k \<noteq> k" "root_of ?rs' (?rs' ! k) r"
      by simp_all
    then show ?thesis by (rule root_of.root_of_parent)
  next
    case True
    let ?p = "rs ! i" and ?g = "rs ! (rs ! i)"
    from rk i have gi: "?g \<noteq> i" by (rule halve_grand_neq)
    from rk i have p: "?p < length rs" by (auto simp: ranked_def)
    have pr: "root_of ?rs' ?p r" using root_of_parent.IH True by simp
    have "root_of ?rs' ?g r"
    proof (cases "?g = ?p")
      case True then show ?thesis using pr by simp
    next
      case False
      have "?rs' ! ?p = ?g" using i by simp
      with pr False show ?thesis by (cases rule: root_of.cases) auto
    qed
    with True gi i have "k < length ?rs'" "?rs' ! k \<noteq> k" "root_of ?rs' (?rs' ! k) r"
      by simp_all
    then show ?thesis by (rule root_of.root_of_parent)
  qed
qed

lemma root_of_halve_bwd:
  assumes rk: "ranked h rs" and i: "i < length rs" "rs ! i \<noteq> i"
  shows "root_of (rs[i := rs ! (rs ! i)]) k r \<Longrightarrow> root_of rs k r"
proof (induction rule: root_of.induct)
  case (root_of_self k)
  from rk i have "rs ! (rs ! i) \<noteq> i" by (rule halve_grand_neq)
  with root_of_self i have "k \<noteq> i" by auto
  with root_of_self have "k < length rs" "rs ! k = k" by simp_all
  then show ?case by (rule root_of.root_of_self)
next
  case (root_of_parent k r)
  show ?case
  proof (cases "k = i")
    case False
    with root_of_parent have "k < length rs" "rs ! k \<noteq> k" "root_of rs (rs ! k) r"
      by simp_all
    then show ?thesis by (rule root_of.root_of_parent)
  next
    case True
    let ?p = "rs ! i" and ?g = "rs ! (rs ! i)"
    from rk i have p: "?p < length rs" by (auto simp: ranked_def)
    from root_of_parent.IH True i have g: "root_of rs ?g r" by simp
    have "root_of rs ?p r"
    proof (cases "?g = ?p")
      case True with g show ?thesis by simp
    next
      case False
      with g p have "?p < length rs" "rs ! ?p \<noteq> ?p" "root_of rs (rs ! ?p) r" by simp_all
      then show ?thesis by (rule root_of.root_of_parent)
    qed
    with True i have "k < length rs" "rs ! k \<noteq> k" "root_of rs (rs ! k) r" by simp_all
    then show ?thesis by (rule root_of.root_of_parent)
  qed
qed

lemma root_of_halve:
  "ranked h rs \<Longrightarrow> i < length rs \<Longrightarrow> rs ! i \<noteq> i \<Longrightarrow>
   root_of (rs[i := rs ! (rs ! i)]) k r = root_of rs k r"
  using root_of_halve_fwd root_of_halve_bwd by blast

lemma ranked_grand:
  assumes "ranked h rs" "i < length rs" "rs ! i \<noteq> i"
  shows "rs ! i < length rs" "rs ! (rs ! i) < length rs" "h (rs ! (rs ! i)) < h i"
proof -
  from assms show p: "rs ! i < length rs" by (simp add: ranked_def)
  from assms have hp: "h (rs ! i) < h i" by (simp add: ranked_def)
  from assms(1) p show "rs ! (rs ! i) < length rs" by (simp add: ranked_def)
  from assms(1) p have "h (rs ! (rs ! i)) \<le> h (rs ! i)"
    by (cases "rs ! (rs ! i) = rs ! i") (auto simp: ranked_def intro: less_imp_le)
  with hp show "h (rs ! (rs ! i)) < h i" by simp
qed

lemma root_of_grand:
  assumes "ranked h rs" "i < length rs" "rs ! i \<noteq> i" "root_of rs (rs ! (rs ! i)) r"
  shows "root_of rs i r"
proof -
  from assms have p: "rs ! i < length rs" by (simp add: ranked_grand)
  have "root_of rs (rs ! i) r"
  proof (cases "rs ! (rs ! i) = rs ! i")
    case True with assms(4) show ?thesis by simp
  next
    case False
    from p False assms(4) show ?thesis by (rule root_of_parent)
  qed
  with assms(2,3) show ?thesis by (rule root_of_parent)
qed

lemma find_root_returns:
  assumes "ranked h (roots s)" "i < length (roots s)"
  shows "\<exists>r rs'. find_root s i = Some (Returned r (s\<lparr>roots := rs'\<rparr>)) \<and>
           root_of (roots s) i r \<and> length rs' = length (roots s) \<and> ranked h rs' \<and>
           (\<forall>k x. root_of rs' k x = root_of (roots s) k x)"
  using assms
proof (induction "h i" arbitrary: s i rule: less_induct)
  case less
  show ?case
  proof (cases "roots s ! i = i")
    case True
    with less.prems have "find_root s i = Some (Returned i (s\<lparr>roots := roots s\<rparr>))"
      by (subst find_root.simps) simp
    moreover from True less.prems have "root_of (roots s) i i" by (simp add: root_of_self)
    ultimately show ?thesis using less.prems by blast
  next
    case False
    let ?g = "roots s ! (roots s ! i)"
    let ?s1 = "s\<lparr>roots := (roots s)[i := ?g]\<rparr>"
    note g = ranked_grand[OF less.prems False]
    have step: "find_root s i = find_root ?s1 ?g"
      using less.prems False g by (subst find_root.simps) simp
    have rk1: "ranked h (roots ?s1)"
      using ranked_halve[OF less.prems False] by simp
    have "?g < length (roots ?s1)" using g by simp
    from less.hyps[OF g(3) rk1 this]
    obtain r rs' where res: "find_root ?s1 ?g = Some (Returned r (?s1\<lparr>roots := rs'\<rparr>))"
      and r: "root_of (roots ?s1) ?g r" and len: "length rs' = length (roots ?s1)"
      and rk': "ranked h rs'" and same: "\<forall>k x. root_of rs' k x = root_of (roots ?s1) k x"
      by blast
    have eq: "\<And>k x. root_of (roots ?s1) k x = root_of (roots s) k x"
      using root_of_halve[OF less.prems False] by simp
    from r eq have "root_of (roots s) ?g r" by simp
    with less.prems False have "root_of (roots s) i r" by (rule root_of_grand)
    moreover have "find_root s i = Some (Returned r (s\<lparr>roots := rs'\<rparr>))"
      using step res by simp
    ultimately show ?thesis using len rk' same eq by auto
  qed
qed

lemma visits_bound: "visits rs i vs \<Longrightarrow> \<forall>v \<in> set vs. v < length rs"
  by (induction rule: visits.induct) auto

lemma visits_height:
  "visits rs i vs \<Longrightarrow> ranked h rs \<Longrightarrow> \<forall>v \<in> set vs. h v \<le> h i"
proof (induction rule: visits.induct)
  case (visits_root i rs)
  then show ?case by simp
next
  case (visits_step i rs vs)
  from visits_step.prems visits_step.hyps(1,2) have rk1: "ranked h (rs[i := rs ! (rs ! i)])"
    by (rule ranked_halve)
  from ranked_grand(3)[OF visits_step.prems visits_step.hyps(1,2)] visits_step.hyps(1)
  have "h (rs[i := rs ! (rs ! i)] ! i) < h i" by simp
  with visits_step.IH[OF rk1] show ?case by fastforce
qed

lemma find_root_visits:
  assumes "ranked h (roots s)" "i < length (roots s)"
  shows "\<exists>r rs' vs. find_root s i = Some (Returned r (s\<lparr>roots := rs'\<rparr>)) \<and>
           visits (roots s) i vs \<and> last vs = r \<and>
           (\<forall>v \<in> set vs. rs' ! v = roots s ! (roots s ! v)) \<and>
           (\<forall>k. k \<notin> set vs \<longrightarrow> rs' ! k = roots s ! k)"
  using assms
proof (induction "h i" arbitrary: s i rule: less_induct)
  case less
  show ?case
  proof (cases "roots s ! i = i")
    case True
    with less.prems have "find_root s i = Some (Returned i (s\<lparr>roots := roots s\<rparr>))"
      by (subst find_root.simps) simp
    moreover from True less.prems have "visits (roots s) i [i]" by (simp add: visits_root)
    ultimately show ?thesis using True by fastforce
  next
    case False
    let ?g = "roots s ! (roots s ! i)"
    let ?rs1 = "(roots s)[i := ?g]"
    let ?s1 = "s\<lparr>roots := ?rs1\<rparr>"
    note g = ranked_grand[OF less.prems False]
    have step: "find_root s i = find_root ?s1 ?g"
      using less.prems False g by (subst find_root.simps) simp
    have rk1: "ranked h ?rs1" by (rule ranked_halve[OF less.prems False])
    then have rk1': "ranked h (roots ?s1)" by simp
    have "?g < length (roots ?s1)" using g by simp
    from less.hyps[OF g(3) rk1' this]
    obtain r rs' vs where res: "find_root ?s1 ?g = Some (Returned r (?s1\<lparr>roots := rs'\<rparr>))"
      and vs: "visits ?rs1 ?g vs" and lst: "last vs = r"
      and upd: "\<forall>v \<in> set vs. rs' ! v = ?rs1 ! (?rs1 ! v)"
      and rest: "\<forall>k. k \<notin> set vs \<longrightarrow> rs' ! k = ?rs1 ! k"
      by auto
    have ne: "vs \<noteq> []" using vs by (cases rule: visits.cases) auto
    from visits_height[OF vs rk1] g(3) have low: "\<forall>v \<in> set vs. h v < h i" by auto
    then have notin: "i \<notin> set vs" by auto
    have "?rs1 ! i = ?g" using less.prems by simp
    with vs less.prems False g have v: "visits (roots s) i (i # vs)"
      by (intro visits_step) simp_all
    have par: "\<forall>v \<in> set vs. roots s ! v \<noteq> i"
    proof
      fix v assume v: "v \<in> set vs"
      with low have hv: "h v < h i" by simp
      show "roots s ! v \<noteq> i"
      proof
        assume e: "roots s ! v = i"
        from visits_bound[OF vs] v have "v < length (roots s)" by simp
        with e less.prems(1) hv notin v have "h i < h v"
          by (auto simp: ranked_def)
        with hv show False by simp
      qed
    qed
    have same: "\<forall>v \<in> set vs. ?rs1 ! (?rs1 ! v) = roots s ! (roots s ! v)"
    proof
      fix v assume v: "v \<in> set vs"
      with notin have "v \<noteq> i" by auto
      moreover from par v have "roots s ! v \<noteq> i" by simp
      ultimately show "?rs1 ! (?rs1 ! v) = roots s ! (roots s ! v)" by simp
    qed
    have "rs' ! i = roots s ! (roots s ! i)" using rest notin less.prems by simp
    with upd same have "\<forall>v \<in> set (i # vs). rs' ! v = roots s ! (roots s ! v)"
      by simp
    moreover have "\<forall>k. k \<notin> set (i # vs) \<longrightarrow> rs' ! k = roots s ! k"
      using rest by auto
    moreover have "find_root s i = Some (Returned r (s\<lparr>roots := rs'\<rparr>))"
      using step res by simp
    moreover have "last (i # vs) = r" using ne lst by simp
    ultimately show ?thesis using v by blast
  qed
qed

lemma root_of_self_iff: "root_of rs k k \<longleftrightarrow> k < length rs \<and> rs ! k = k"
  using root_of_bound root_of_self by blast

lemma num_roots_card: "num_roots rs = card {k. root_of rs k k}"
proof -
  let ?xs = "filter (\<lambda>i. rs ! i = i) [0 ..< length rs]"
  have "{k. root_of rs k k} = set ?xs"
    by (auto simp: root_of_self_iff)
  moreover have "distinct ?xs" by simp
  then have "card (set ?xs) = length ?xs" by (rule distinct_card)
  ultimately show ?thesis unfolding num_roots_def by presburger
qed

lemma class_of_finite: "finite (class_of rs r)"
proof (rule finite_subset)
  show "class_of rs r \<subseteq> {..< length rs}" using root_of_bound by (auto simp: class_of_def)
qed simp

lemma forest_total: "forest rs \<Longrightarrow> i < length rs \<Longrightarrow> \<exists>r. root_of rs i r"
  unfolding forest_def using root_of_total by blast

subsection \<open>Attaching one root under another\<close>

lemma ranked_link:
  assumes "ranked h rs" "lo < length rs" "hi < length rs" "rs ! lo = lo" "rs ! hi = hi" "lo \<noteq> hi"
  shows "ranked (\<lambda>k. if k = hi then 0 else Suc (h k)) (rs[lo := hi])"
  unfolding ranked_def
proof (intro allI impI)
  fix k assume "k < length (rs[lo := hi])"
  then have k: "k < length rs" by simp
  let ?h = "\<lambda>k. if k = hi then 0 else Suc (h k)"
  show "rs[lo := hi] ! k < length (rs[lo := hi]) \<and>
        (rs[lo := hi] ! k \<noteq> k \<longrightarrow> ?h (rs[lo := hi] ! k) < ?h k)"
  proof (cases "k = lo")
    case True
    with assms show ?thesis by simp
  next
    case False
    from assms(1) k have "rs ! k < length rs" "rs ! k \<noteq> k \<longrightarrow> h (rs ! k) < h k"
      by (simp_all add: ranked_def)
    with False assms(5) show ?thesis by auto
  qed
qed

lemma forest_link:
  "forest rs \<Longrightarrow> lo < length rs \<Longrightarrow> hi < length rs \<Longrightarrow> rs ! lo = lo \<Longrightarrow> rs ! hi = hi \<Longrightarrow>
   lo \<noteq> hi \<Longrightarrow> forest (rs[lo := hi])"
  unfolding forest_def using ranked_link by blast

lemma root_of_link_fwd:
  assumes lo: "lo < length rs" "rs ! lo = lo" and hi: "hi < length rs" "rs ! hi = hi"
    and ne: "lo \<noteq> hi"
  shows "root_of rs k y \<Longrightarrow> root_of (rs[lo := hi]) k (if y = lo then hi else y)"
proof (induction rule: root_of.induct)
  case (root_of_self k)
  show ?case
  proof (cases "k = lo")
    case True
    from hi ne have "root_of (rs[lo := hi]) hi hi" by (simp add: root_of_self_iff)
    with lo ne have "lo < length (rs[lo := hi])" "rs[lo := hi] ! lo \<noteq> lo"
      "root_of (rs[lo := hi]) (rs[lo := hi] ! lo) hi" by simp_all
    then have "root_of (rs[lo := hi]) lo hi" by (rule root_of_parent)
    with True show ?thesis by simp
  next
    case False
    with root_of_self show ?thesis by (simp add: root_of_self_iff)
  qed
next
  case (root_of_parent k r)
  with lo have "k \<noteq> lo" by auto
  with root_of_parent have "k < length (rs[lo := hi])" "rs[lo := hi] ! k \<noteq> k"
    "root_of (rs[lo := hi]) (rs[lo := hi] ! k) (if r = lo then hi else r)" by simp_all
  then show ?case by (rule root_of.root_of_parent)
qed

lemma root_of_link:
  assumes f: "forest rs" and lo: "lo < length rs" "rs ! lo = lo" and hi: "hi < length rs" "rs ! hi = hi"
    and ne: "lo \<noteq> hi"
  shows "root_of (rs[lo := hi]) k x \<longleftrightarrow> (\<exists>y. root_of rs k y \<and> x = (if y = lo then hi else y))"
proof
  assume a: "root_of (rs[lo := hi]) k x"
  then have "k < length rs" using root_of_bound by fastforce
  with f obtain y where y: "root_of rs k y" using forest_total by blast
  from root_of_link_fwd[OF lo hi ne y] a have "x = (if y = lo then hi else y)"
    using root_of_det by blast
  with y show "\<exists>y. root_of rs k y \<and> x = (if y = lo then hi else y)" by blast
next
  assume "\<exists>y. root_of rs k y \<and> x = (if y = lo then hi else y)"
  then show "root_of (rs[lo := hi]) k x" using root_of_link_fwd[OF lo hi ne] by blast
qed

lemma class_of_link:
  assumes f: "forest rs" and lo: "lo < length rs" "rs ! lo = lo" and hi: "hi < length rs" "rs ! hi = hi"
    and ne: "lo \<noteq> hi"
  shows "class_of (rs[lo := hi]) x =
          (if x = hi then class_of rs lo \<union> class_of rs hi
           else if x = lo then {} else class_of rs x)"
  unfolding class_of_def using root_of_link[OF f lo hi ne] ne
  by (auto split: if_splits)

lemma class_of_disjoint: "x \<noteq> y \<Longrightarrow> class_of rs x \<inter> class_of rs y = {}"
  unfolding class_of_def using root_of_det by fastforce

lemma num_roots_link:
  assumes f: "forest rs" and lo: "lo < length rs" "rs ! lo = lo" and hi: "hi < length rs" "rs ! hi = hi"
    and ne: "lo \<noteq> hi"
  shows "int (num_roots (rs[lo := hi])) = int (num_roots rs) - 1"
proof -
  have "{k. root_of (rs[lo := hi]) k k} = {k. root_of rs k k} - {lo}"
    using lo hi ne by (auto simp: root_of_self_iff nth_list_update)
  moreover have "lo \<in> {k. root_of rs k k}" using lo by (simp add: root_of_self_iff)
  moreover have "finite {k. root_of rs k k}"
    by (rule finite_subset[of _ "{..< length rs}"]) (auto simp: root_of_self_iff)
  ultimately have "card {k. root_of (rs[lo := hi]) k k} = card {k. root_of rs k k} - 1"
    "card {k. root_of rs k k} > 0"
    by (auto simp: card_gt_0_iff)
  then show ?thesis by (simp add: num_roots_card)
qed

lemma sizes_ok_link:
  assumes f: "forest rs" and lo: "lo < length rs" "rs ! lo = lo" and hi: "hi < length rs" "rs ! hi = hi"
    and ne: "lo \<noteq> hi" and ok: "sizes_ok rs szs" and len: "length szs = length rs"
  shows "sizes_ok (rs[lo := hi]) (szs[hi := szs ! hi + szs ! lo])"
  unfolding sizes_ok_def
proof (intro allI impI)
  fix r assume r: "root_of (rs[lo := hi]) r r"
  then have rr: "r < length rs" "r \<noteq> lo" "rs ! r = r"
    using lo ne by (auto simp: root_of_self_iff nth_list_update split: if_splits)
  then have r0: "root_of rs r r" by (simp add: root_of_self_iff)
  show "szs[hi := szs ! hi + szs ! lo] ! r = int (card (class_of (rs[lo := hi]) r))"
  proof (cases "r = hi")
    case True
    from lo hi have "root_of rs lo lo" "root_of rs hi hi" by (simp_all add: root_of_self_iff)
    with ok have "szs ! lo = int (card (class_of rs lo))" "szs ! hi = int (card (class_of rs hi))"
      by (simp_all add: sizes_ok_def)
    moreover have "card (class_of rs lo \<union> class_of rs hi) = card (class_of rs lo) + card (class_of rs hi)"
      by (rule card_Un_disjoint) (simp_all add: class_of_finite class_of_disjoint ne)
    ultimately show ?thesis using True hi len by (simp add: class_of_link[OF f lo hi ne])
  next
    case False
    with rr r0 ok show ?thesis by (simp add: class_of_link[OF f lo hi ne] sizes_ok_def)
  qed
qed

subsection \<open>Appending a fresh root\<close>

lemma ranked_append: "ranked h rs \<Longrightarrow> ranked h (rs @ [length rs])"
  by (auto simp: ranked_def nth_append less_Suc_eq)

lemma forest_append: "forest rs \<Longrightarrow> forest (rs @ [length rs])"
  unfolding forest_def using ranked_append by blast

lemma root_of_append_fwd:
  "root_of rs k x \<Longrightarrow> root_of (rs @ [length rs]) k x"
proof (induction rule: root_of.induct)
  case (root_of_self k)
  then show ?case by (simp add: root_of_self_iff nth_append)
next
  case (root_of_parent k r)
  then have "k < length (rs @ [length rs])" "(rs @ [length rs]) ! k \<noteq> k"
    "root_of (rs @ [length rs]) ((rs @ [length rs]) ! k) r" by (simp_all add: nth_append)
  then show ?case by (rule root_of.root_of_parent)
qed

lemma root_of_append:
  assumes f: "forest rs"
  shows "root_of (rs @ [length rs]) k x \<longleftrightarrow> root_of rs k x \<or> (k = length rs \<and> x = length rs)"
proof
  assume a: "root_of (rs @ [length rs]) k x"
  show "root_of rs k x \<or> (k = length rs \<and> x = length rs)"
  proof (cases "k < length rs")
    case True
    with f obtain y where y: "root_of rs k y" using forest_total by blast
    from root_of_append_fwd[OF y] a have "x = y" using root_of_det by blast
    with y show ?thesis by simp
  next
    case False
    with a have k: "k = length rs" using root_of_bound by fastforce
    then have "root_of (rs @ [length rs]) k k" by (simp add: root_of_self_iff)
    with a have "x = k" using root_of_det by blast
    with k show ?thesis by simp
  qed
next
  assume "root_of rs k x \<or> (k = length rs \<and> x = length rs)"
  then show "root_of (rs @ [length rs]) k x"
    using root_of_append_fwd by (auto simp: root_of_self_iff)
qed

lemma class_of_append:
  assumes f: "forest rs"
  shows "class_of (rs @ [length rs]) x = (if x = length rs then {length rs} else class_of rs x)"
  unfolding class_of_def using root_of_append[OF f] root_of_bound[of rs _ "length rs"]
  by auto

lemma num_roots_append: "num_roots (rs @ [length rs]) = Suc (num_roots rs)"
proof -
  have "filter (\<lambda>i. (rs @ [length rs]) ! i = i) [0 ..< length rs] =
        filter (\<lambda>i. rs ! i = i) [0 ..< length rs]"
    by (rule filter_cong) (simp_all add: nth_append)
  then show ?thesis by (simp add: num_roots_def)
qed

lemma sizes_ok_append:
  assumes f: "forest rs" and ok: "sizes_ok rs szs" and len: "length szs = length rs"
  shows "sizes_ok (rs @ [length rs]) (szs @ [1])"
  unfolding sizes_ok_def
proof (intro allI impI)
  fix r assume "root_of (rs @ [length rs]) r r"
  then consider "root_of rs r r" | "r = length rs" using root_of_append[OF f] by blast
  then show "(szs @ [1]) ! r = int (card (class_of (rs @ [length rs]) r))"
  proof cases
    case 1
    then have "r < length rs" using root_of_bound by blast
    with 1 ok len show ?thesis by (simp add: class_of_append[OF f] sizes_ok_def nth_append)
  next
    case 2
    with len show ?thesis by (simp add: class_of_append[OF f] nth_append)
  qed
qed

subsection \<open>Lists with the same root relation\<close>

lemma same_roots_num: "(\<And>k x. root_of rs' k x = root_of rs k x) \<Longrightarrow> num_roots rs' = num_roots rs"
  by (simp add: num_roots_card)

lemma same_roots_sizes:
  "(\<And>k x. root_of rs' k x = root_of rs k x) \<Longrightarrow> sizes_ok rs' szs = sizes_ok rs szs"
  by (simp add: sizes_ok_def class_of_def)

section \<open>The operations on states that satisfy the invariant\<close>

lemma invar_init: "invar init"
  by (simp add: invar_def init_def wf_ids_def forest_def ranked_def num_roots_def sizes_ok_def
      edges_ok_def root_of_self_iff)

lemma invar_roots_update:
  assumes "invar s" "length rs' = length (roots s)" "forest rs'"
    "\<And>k y. root_of rs' k y = root_of (roots s) k y"
  shows "invar (s\<lparr>roots := rs'\<rparr>)"
  using assms same_roots_num[of rs' "roots s"] same_roots_sizes[of rs' "roots s" "sizes s"]
  by (simp add: invar_def wf_ids_def)

lemma invar_idx: "invar s \<Longrightarrow> identifiers s x = Some i \<Longrightarrow> i < length (roots s)"
  by (simp add: invar_def wf_ids_def)

lemma find_root_forest:
  assumes "forest (roots s)" "i < length (roots s)"
  shows "\<exists>r rs'. find_root s i = Some (Returned r (s\<lparr>roots := rs'\<rparr>)) \<and>
           root_of (roots s) i r \<and> length rs' = length (roots s) \<and> forest rs' \<and>
           (\<forall>k x. root_of rs' k x = root_of (roots s) k x)"
proof -
  from assms(1) obtain h where "ranked h (roots s)" by (auto simp: forest_def)
  from find_root_returns[OF this assms(2)] show ?thesis unfolding forest_def by blast
qed

lemma find_ec_returns:
  assumes "invar s" "identifiers s x = Some i"
  shows "\<exists>r rs'. find_ec s x = Some (Returned r (s\<lparr>roots := rs'\<rparr>)) \<and>
           root_of (roots s) i r \<and> length rs' = length (roots s) \<and> forest rs' \<and>
           (\<forall>k y. root_of rs' k y = root_of (roots s) k y)"
proof -
  from assms have "forest (roots s)" "i < length (roots s)" by (simp_all add: invar_def wf_ids_def)
  from find_root_forest[OF this] assms(2) show ?thesis by (simp add: find_ec_def)
qed

lemma union_ec_returns:
  assumes inv: "invar s" and a: "identifiers s a = Some i" and b: "identifiers s b = Some j"
  shows "\<exists>ra rb rs2. root_of (roots s) i ra \<and> root_of (roots s) j rb \<and>
           length rs2 = length (roots s) \<and> forest rs2 \<and>
           (\<forall>k y. root_of rs2 k y = root_of (roots s) k y) \<and>
           union_ec s a b = Some (Returned ()
             (if ra = rb then s\<lparr>roots := rs2\<rparr>
              else if sizes s ! ra < sizes s ! rb then linked s rs2 ra rb
              else linked s rs2 rb ra))"
proof -
  from inv a b have f: "forest (roots s)" and i: "i < length (roots s)" and j: "j < length (roots s)"
    and len: "length (sizes s) = length (roots s)"
    by (simp_all add: invar_def wf_ids_def)
  from find_root_forest[OF f i] obtain ra rs1 where
    r1: "find_root s i = Some (Returned ra (s\<lparr>roots := rs1\<rparr>))" and ra: "root_of (roots s) i ra"
    and len1: "length rs1 = length (roots s)" and f1: "forest rs1"
    and same1: "\<forall>k x. root_of rs1 k x = root_of (roots s) k x" by blast
  let ?s1 = "s\<lparr>roots := rs1\<rparr>"
  have "forest (roots ?s1)" "j < length (roots ?s1)" using f1 len1 j by simp_all
  from find_root_forest[OF this] obtain rb rs2 where
    r2: "find_root ?s1 j = Some (Returned rb (?s1\<lparr>roots := rs2\<rparr>))" and rb1: "root_of (roots ?s1) j rb"
    and len2: "length rs2 = length (roots ?s1)" and f2: "forest rs2"
    and same2: "\<forall>k x. root_of rs2 k x = root_of (roots ?s1) k x" by blast
  from rb1 same1 have rb: "root_of (roots s) j rb" by simp
  from ra rb have bnd: "ra < length (roots s)" "rb < length (roots s)"
    using root_of_bound by blast+
  have same: "\<forall>k y. root_of rs2 k y = root_of (roots s) k y" using same1 same2 by simp
  have "union_ec s a b = Some (Returned ()
             (if ra = rb then s\<lparr>roots := rs2\<rparr>
              else if sizes s ! ra < sizes s ! rb then linked s rs2 ra rb
              else linked s rs2 rb ra))"
    using a b r1 r2 bnd len len1 len2 by (simp add: union_ec_def linked_def)
  with ra rb len1 len2 f2 same show ?thesis by auto
qed

lemma invar_linked:
  assumes inv: "invar s" and len: "length rs2 = length (roots s)" and f2: "forest rs2"
    and same: "\<And>k y. root_of rs2 k y = root_of (roots s) k y"
    and lo: "root_of (roots s) lo lo" and hi: "root_of (roots s) hi hi" and ne: "lo \<noteq> hi"
  shows "invar (linked s rs2 lo hi)"
proof -
  from lo hi same have "root_of rs2 lo lo" "root_of rs2 hi hi" by simp_all
  then have l: "lo < length rs2" "rs2 ! lo = lo" and h: "hi < length rs2" "rs2 ! hi = hi"
    by (simp_all add: root_of_self_iff)
  from inv have sz: "sizes_ok rs2 (sizes s)" and slen: "length (sizes s) = length rs2"
    and cnt: "count_field s = int (num_roots rs2)"
    using same_roots_sizes[of rs2 "roots s" "sizes s"] same_roots_num[of rs2 "roots s"] same len
    by (simp_all add: invar_def wf_ids_def)
  from inv len have "wf_ids (linked s rs2 lo hi)" by (simp add: invar_def wf_ids_def linked_def)
  moreover have "forest (roots (linked s rs2 lo hi))"
    using forest_link[OF f2 l(1) h(1) l(2) h(2) ne] by (simp add: linked_def)
  moreover have "count_field (linked s rs2 lo hi) = int (num_roots (roots (linked s rs2 lo hi)))"
    using num_roots_link[OF f2 l h ne] cnt by (simp add: linked_def)
  moreover have "sizes_ok (roots (linked s rs2 lo hi)) (sizes (linked s rs2 lo hi))"
    using sizes_ok_link[OF f2 l h ne sz slen] by (simp add: linked_def)
  moreover have "edges_ok (nodes (linked s rs2 lo hi))"
    using inv by (simp add: invar_def linked_def)
  ultimately show ?thesis by (simp add: invar_def)
qed

lemma root_of_idem: "root_of rs i r \<Longrightarrow> root_of rs r r"
  using root_of_bound root_of_self by blast

lemma invar_union:
  assumes inv: "invar s" and u: "union_ec s a b = Some out"
  shows "invar (state_after out)"
proof (cases "\<exists>i j. identifiers s a = Some i \<and> identifiers s b = Some j")
  case False
  then have "union_ec s a b = Some (Raised
      (ValueError ''Both union identifiers must already exist within an equivalence class'') s)"
    by (auto simp: union_ec_def split: option.splits)
  with u inv show ?thesis by auto
next
  case True
  then obtain i j where a: "identifiers s a = Some i" and b: "identifiers s b = Some j" by blast
  from union_ec_returns[OF inv a b] u obtain ra rb rs2 where
    ra: "root_of (roots s) i ra" and rb: "root_of (roots s) j rb"
    and len: "length rs2 = length (roots s)" and f2: "forest rs2"
    and same: "\<And>k y. root_of rs2 k y = root_of (roots s) k y"
    and out: "out = Returned ()
             (if ra = rb then s\<lparr>roots := rs2\<rparr>
              else if sizes s ! ra < sizes s ! rb then linked s rs2 ra rb
              else linked s rs2 rb ra)" by auto
  note rr = root_of_idem[OF ra] root_of_idem[OF rb]
  show ?thesis
  proof (cases "ra = rb")
    case True
    with out invar_roots_update[OF inv len f2 same] show ?thesis by simp
  next
    case False
    then have "rb \<noteq> ra" by simp
    with False out invar_linked[OF inv len f2 same rr(1) rr(2)]
      invar_linked[OF inv len f2 same rr(2) rr(1)]
    show ?thesis by simp
  qed
qed

lemma length_add_edge: "length (add_edge ns i j) = length ns"
  by (simp add: add_edge_def Let_def)

lemma add_edge_destinations:
  "i < length ns \<Longrightarrow> j < length ns \<Longrightarrow>
   destinations (add_edge ns i j ! k) =
     (if k = i then insert j (destinations (ns ! k)) else destinations (ns ! k))"
  by (simp add: add_edge_def Let_def nth_list_update)

lemma add_edge_sources:
  "i < length ns \<Longrightarrow> j < length ns \<Longrightarrow>
   sources (add_edge ns i j ! k) =
     (if k = j then insert i (sources (ns ! k)) else sources (ns ! k))"
  by (simp add: add_edge_def Let_def nth_list_update)

lemma add_edge_identifier:
  "i < length ns \<Longrightarrow> j < length ns \<Longrightarrow>
   node_identifier (add_edge ns i j ! k) = node_identifier (ns ! k)"
  by (simp add: add_edge_def Let_def nth_list_update)

lemma edges_ok_add_edge:
  assumes ok: "edges_ok ns" and i: "i < length ns" and j: "j < length ns"
  shows "edges_ok (add_edge ns i j)"
  unfolding edges_ok_def
proof (intro allI impI conjI ballI)
  fix k m
  assume "k < length (add_edge ns i j)" and m: "m \<in> destinations (add_edge ns i j ! k)"
  then have k: "k < length ns" by (simp add: length_add_edge)
  from m i j have "m \<in> destinations (ns ! k) \<or> (k = i \<and> m = j)"
    by (auto simp: add_edge_destinations split: if_splits)
  then have "m < length ns \<and> (k \<in> sources (ns ! m) \<or> (k = i \<and> m = j))"
    using ok k j unfolding edges_ok_def by blast
  then show "m < length (add_edge ns i j)" "k \<in> sources (add_edge ns i j ! m)"
    using i j by (auto simp: length_add_edge add_edge_sources)
next
  fix k m
  assume "k < length (add_edge ns i j)" and m: "m \<in> sources (add_edge ns i j ! k)"
  then have k: "k < length ns" by (simp add: length_add_edge)
  from m i j have "m \<in> sources (ns ! k) \<or> (k = j \<and> m = i)"
    by (auto simp: add_edge_sources split: if_splits)
  then have "m < length ns \<and> (k \<in> destinations (ns ! m) \<or> (k = j \<and> m = i))"
    using ok k i unfolding edges_ok_def by blast
  then show "m < length (add_edge ns i j)" "k \<in> destinations (add_edge ns i j ! m)"
    using i j by (auto simp: length_add_edge add_edge_destinations)
qed

lemma edges_ok_append:
  assumes "edges_ok ns"
  shows "edges_ok (ns @ [Node x])"
  unfolding edges_ok_def
proof (intro allI impI)
  fix i assume "i < length (ns @ [Node x])"
  then consider "i < length ns" | "i = length ns" by fastforce
  then show "(\<forall>j \<in> destinations ((ns @ [Node x]) ! i).
               j < length (ns @ [Node x]) \<and> i \<in> sources ((ns @ [Node x]) ! j)) \<and>
             (\<forall>j \<in> sources ((ns @ [Node x]) ! i).
               j < length (ns @ [Node x]) \<and> i \<in> destinations ((ns @ [Node x]) ! j))"
  proof cases
    case 1
    with assms have
      d: "\<forall>j \<in> destinations (ns ! i). j < length ns \<and> i \<in> sources (ns ! j)" and
      s: "\<forall>j \<in> sources (ns ! i). j < length ns \<and> i \<in> destinations (ns ! j)"
      unfolding edges_ok_def by blast+
    from 1 d s show ?thesis by (simp add: nth_append) (meson less_SucI)
  next
    case 2
    then show ?thesis by (simp add: Node_def)
  qed
qed

lemma invar_add: "invar s \<Longrightarrow> invar (state_after (add s x))"
proof (cases "identifiers s x = None")
  case False
  assume "invar s"
  with False show ?thesis by (simp add: add_def)
next
  case True
  assume inv: "invar s"
  let ?n = "length (roots s)"
  let ?s' = "s\<lparr>roots := roots s @ [?n], nodes := nodes s @ [Node x], sizes := sizes s @ [1],
               identifiers := (identifiers s)(x \<mapsto> ?n), count_field := count_field s + 1\<rparr>"
  from inv have wf: "wf_ids s" and f: "forest (roots s)"
    and cnt: "count_field s = int (num_roots (roots s))"
    and sz: "sizes_ok (roots s) (sizes s)" and ed: "edges_ok (nodes s)"
    by (simp_all add: invar_def)
  from wf have lens: "length (nodes s) = ?n" "length (sizes s) = ?n" by (simp_all add: wf_ids_def)
  have "wf_ids ?s'"
    unfolding wf_ids_def
  proof (intro conjI allI impI)
    show "length (nodes ?s') = length (roots ?s')" using lens by simp
    show "length (sizes ?s') = length (roots ?s')" using lens by simp
  next
    fix y i assume yi: "identifiers ?s' y = Some i"
    show "i < length (roots ?s')"
    proof (cases "y = x")
      case True with yi show ?thesis by simp
    next
      case False
      with yi have "identifiers s y = Some i" by simp
      with wf have "i < ?n" unfolding wf_ids_def by blast
      then show ?thesis by simp
    qed
    show "node_identifier (nodes ?s' ! i) = y"
    proof (cases "y = x")
      case True
      with yi lens have "i = length (nodes s)" by simp
      then have "(nodes s @ [Node x]) ! i = Node x" by simp
      with True show ?thesis by (simp add: Node_def)
    next
      case False
      with yi have "identifiers s y = Some i" by simp
      with wf have "i < ?n" "node_identifier (nodes s ! i) = y" unfolding wf_ids_def by blast+
      with lens show ?thesis by (simp add: nth_append)
    qed
  next
    fix i assume "i < length (roots ?s')"
    then consider "i < ?n" | "i = ?n" by fastforce
    then show "identifiers ?s' (node_identifier (nodes ?s' ! i)) = Some i"
    proof cases
      case 1
      with wf have e: "identifiers s (node_identifier (nodes s ! i)) = Some i"
        unfolding wf_ids_def by blast
      with True have "node_identifier (nodes s ! i) \<noteq> x" by auto
      with e 1 lens show ?thesis by (simp add: nth_append)
    next
      case 2
      with lens have "i = length (nodes s)" by simp
      then have "(nodes s @ [Node x]) ! i = Node x" by simp
      with 2 show ?thesis by (simp add: Node_def)
    qed
  qed
  moreover have "forest (roots ?s')" using forest_append[OF f] by simp
  moreover have "count_field ?s' = int (num_roots (roots ?s'))"
    using cnt by (simp add: num_roots_append)
  moreover have "sizes_ok (roots ?s') (sizes ?s')"
    using sizes_ok_append[OF f sz lens(2)] by simp
  moreover have "edges_ok (nodes ?s')"
    using edges_ok_append[OF ed] by simp
  ultimately have "invar ?s'" by (simp add: invar_def)
  with True show ?thesis by (simp add: add_def Let_def)
qed

lemma invar_find:
  assumes inv: "invar s" and u: "find_ec s x = Some out"
  shows "invar (state_after out)"
proof (cases "identifiers s x")
  case None
  with u inv show ?thesis by (auto simp: find_ec_def)
next
  case (Some i)
  from find_ec_returns[OF inv Some] u obtain r rs' where
    "out = Returned r (s\<lparr>roots := rs'\<rparr>)" "length rs' = length (roots s)" "forest rs'"
    "\<And>k y. root_of rs' k y = root_of (roots s) k y" by auto
  with invar_roots_update[OF inv] show ?thesis by simp
qed

lemma get_node_returns:
  "invar s \<Longrightarrow> identifiers s x = Some i \<Longrightarrow> get_node s x = Returned i s"
  by (simp add: get_node_def invar_def wf_ids_def)

lemma get_node_state: "state_after (get_node s x) = s"
  by (simp add: get_node_def split: option.splits)

lemma union_ec_ids:
  assumes "invar s" "union_ec s a b = Some out"
  shows "identifiers (state_after out) = identifiers s \<and> nodes (state_after out) = nodes s"
proof (cases "\<exists>i j. identifiers s a = Some i \<and> identifiers s b = Some j")
  case False
  then have "union_ec s a b = Some (Raised
      (ValueError ''Both union identifiers must already exist within an equivalence class'') s)"
    by (auto simp: union_ec_def split: option.splits)
  with assms show ?thesis by auto
next
  case True
  then obtain i j where a: "identifiers s a = Some i" and b: "identifiers s b = Some j" by blast
  from union_ec_returns[OF assms(1) a b] assms(2) show ?thesis
    by (auto simp: linked_def split: if_splits)
qed

lemma connect_returns:
  assumes inv: "invar s" and a: "identifiers s a = Some i" and b: "identifiers s b = Some j"
  shows "\<exists>s1. union_ec s a b = Some (Returned () s1) \<and>
           connect s a b = Some (Returned () (s1\<lparr>nodes := add_edge (nodes s) i j\<rparr>))"
proof -
  from union_ec_returns[OF inv a b] obtain s1 where u: "union_ec s a b = Some (Returned () s1)"
    by blast
  from invar_union[OF inv u] have inv1: "invar s1" by simp
  from union_ec_ids[OF inv u] have ids: "identifiers s1 = identifiers s" "nodes s1 = nodes s"
    by simp_all
  from get_node_returns[OF inv1] a b ids
  have "get_node s1 a = Returned i s1" "get_node s1 b = Returned j s1" by simp_all
  with u ids have "connect s a b = Some (Returned () (s1\<lparr>nodes := add_edge (nodes s) i j\<rparr>))"
    by (simp add: connect_def add_edge_def Let_def)
  with u show ?thesis by blast
qed

lemma connect_raises:
  assumes "identifiers s a = None \<or> identifiers s b = None"
  shows "connect s a b = Some (Raised
      (ValueError ''Both union identifiers must already exist within an equivalence class'') s)"
  using assms by (auto simp: connect_def union_ec_def split: option.splits)

lemma invar_nodes_update:
  assumes "invar s" "i < length (nodes s)" "j < length (nodes s)"
  shows "invar (s\<lparr>nodes := add_edge (nodes s) i j\<rparr>)"
  using assms edges_ok_add_edge[of "nodes s" i j]
  by (simp add: invar_def wf_ids_def length_add_edge add_edge_identifier)

lemma invar_connect:
  assumes inv: "invar s" and u: "connect s a b = Some out"
  shows "invar (state_after out)"
proof (cases "\<exists>i j. identifiers s a = Some i \<and> identifiers s b = Some j")
  case False
  then have "identifiers s a = None \<or> identifiers s b = None" by auto
  from connect_raises[OF this] u inv show ?thesis by auto
next
  case True
  then obtain i j where a: "identifiers s a = Some i" and b: "identifiers s b = Some j" by blast
  from connect_returns[OF inv a b] u obtain s1 where
    u1: "union_ec s a b = Some (Returned () s1)"
    and out: "out = Returned () (s1\<lparr>nodes := add_edge (nodes s) i j\<rparr>)" by auto
  from invar_union[OF inv u1] have inv1: "invar s1" by simp
  from union_ec_ids[OF inv u1] have ids: "nodes s1 = nodes s" by simp
  from inv a b have "i < length (nodes s)" "j < length (nodes s)" by (simp_all add: invar_def wf_ids_def)
  with invar_nodes_update[OF inv1, of i j] ids out show ?thesis by simp
qed

lemma invar_exec: "invar s \<Longrightarrow> exec s c = Some s' \<Longrightarrow> invar s'"
  by (cases c) (auto simp: invar_add get_node_state invar_find invar_union invar_connect)

lemma invar_run: "invar s \<Longrightarrow> run s cs = Some s' \<Longrightarrow> invar s'"
proof (induction cs arbitrary: s)
  case Nil
  then show ?case by simp
next
  case (Cons c cs)
  then show ?case by (auto split: option.splits dest: invar_exec)
qed

lemma reachable_invar: "reachable s \<Longrightarrow> invar s"
  unfolding reachable_def using invar_run[OF invar_init] by blast

lemma reachableI: "\<not> Option.is_none (run init cs) \<Longrightarrow> reachable (the (run init cs))"
  unfolding reachable_def by (cases "run init cs") auto

lemma funpow_links:
  assumes "ranked h rs" "i < length rs"
  shows "((!) rs ^^ n) i < length rs \<and> h (((!) rs ^^ n) i) \<le> h i"
proof (induction n)
  case 0
  with assms show ?case by simp
next
  case (Suc n)
  let ?k = "((!) rs ^^ n) i"
  from Suc assms(1) have "rs ! ?k < length rs" "h (rs ! ?k) \<le> h ?k"
    by (cases "rs ! ?k = ?k"; simp add: ranked_def less_imp_le)+
  with Suc show ?case by simp
qed

lemma root_of_funpow: "root_of rs i r \<Longrightarrow> \<exists>n. ((!) rs ^^ n) i = r"
proof (induction rule: root_of.induct)
  case (root_of_self i)
  have "((!) rs ^^ 0) i = i" by simp
  then show ?case by blast
next
  case (root_of_parent i r)
  then obtain n where "((!) rs ^^ n) (rs ! i) = r" by blast
  then have "((!) rs ^^ Suc n) i = r" by (simp add: funpow_swap1)
  then show ?case by blast
qed

lemma ranked_no_cycle:
  assumes "ranked h rs" "i < length rs" "0 < n" "((!) rs ^^ n) i = i"
  shows "rs ! i = i"
proof (rule ccontr)
  assume ne: "rs ! i \<noteq> i"
  with assms(1,2) have p: "rs ! i < length rs" "h (rs ! i) < h i" by (simp_all add: ranked_def)
  from assms(3) obtain m where n: "n = Suc m" by (cases n) auto
  have "((!) rs ^^ n) i = ((!) rs ^^ m) (rs ! i)" by (simp add: n funpow_swap1)
  with funpow_links[OF assms(1) p(1), of m] assms(4) have "h i \<le> h (rs ! i)" by simp
  with p show False by simp
qed

lemma example_reachable: "reachable example_state"
  unfolding example_state_def by (rule reachableI) code_simp

lemma example_roots: "roots example_state = [2, 0, 2, 2]"
  unfolding example_state_def by code_simp

lemma joined_root: "root_of rs i r \<Longrightarrow> joined rs k i \<longleftrightarrow> root_of rs k r"
  unfolding joined_def using root_of_det by blast

lemma joined_sym: "joined rs k l = joined rs l k"
  unfolding joined_def by blast

lemma joined_same_roots:
  "(\<And>k x. root_of rs' k x = root_of rs k x) \<Longrightarrow> joined rs' k l = joined rs k l"
  by (simp add: joined_def)

lemma joined_link:
  assumes f: "forest rs" and lo: "root_of rs lo lo" and hi: "root_of rs hi hi" and ne: "lo \<noteq> hi"
  shows "joined (rs[lo := hi]) k l \<longleftrightarrow>
           joined rs k l \<or> root_of rs k lo \<and> root_of rs l hi \<or> root_of rs k hi \<and> root_of rs l lo"
proof -
  from lo hi have l: "lo < length rs" "rs ! lo = lo" and h: "hi < length rs" "rs ! hi = hi"
    by (simp_all add: root_of_self_iff)
  note R = root_of_link[OF f l h ne]
  show ?thesis
  proof
    assume "joined (rs[lo := hi]) k l"
    then obtain r yk yl where yk: "root_of rs k yk" "r = (if yk = lo then hi else yk)"
      and yl: "root_of rs l yl" "r = (if yl = lo then hi else yl)"
      unfolding joined_def R by blast
    then show "joined rs k l \<or> root_of rs k lo \<and> root_of rs l hi \<or> root_of rs k hi \<and> root_of rs l lo"
      unfolding joined_def by (cases "yk = lo"; cases "yl = lo") auto
  next
    assume "joined rs k l \<or> root_of rs k lo \<and> root_of rs l hi \<or> root_of rs k hi \<and> root_of rs l lo"
    then consider r where "root_of rs k r" "root_of rs l r"
      | "root_of rs k lo" "root_of rs l hi" | "root_of rs k hi" "root_of rs l lo"
      unfolding joined_def by blast
    then show "joined (rs[lo := hi]) k l"
    proof cases
      case 1
      then have "root_of (rs[lo := hi]) k (if r = lo then hi else r)"
        "root_of (rs[lo := hi]) l (if r = lo then hi else r)" unfolding R by blast+
      then show ?thesis unfolding joined_def by blast
    next
      case 2
      then have "root_of (rs[lo := hi]) k hi" "root_of (rs[lo := hi]) l hi"
        unfolding R using ne by auto
      then show ?thesis unfolding joined_def by blast
    next
      case 3
      then have "root_of (rs[lo := hi]) k hi" "root_of (rs[lo := hi]) l hi"
        unfolding R using ne by auto
      then show ?thesis unfolding joined_def by blast
    qed
  qed
qed

lemma same_class_joined:
  assumes inv: "invar s" and x: "identifiers s x = Some k" and y: "identifiers s y = Some l"
  shows "same_class s x y = Some (joined (roots s) k l)"
proof -
  from find_ec_returns[OF inv x] obtain r1 rs1 where
    f1: "find_ec s x = Some (Returned r1 (s\<lparr>roots := rs1\<rparr>))" and r1: "root_of (roots s) k r1"
    and len1: "length rs1 = length (roots s)" and fo1: "forest rs1"
    and same1: "\<And>k y. root_of rs1 k y = root_of (roots s) k y" by blast
  let ?s1 = "s\<lparr>roots := rs1\<rparr>"
  from invar_roots_update[OF inv len1 fo1 same1] have inv1: "invar ?s1" .
  from y have "identifiers ?s1 y = Some l" by simp
  from find_ec_returns[OF inv1 this] obtain r2 s2 where
    f2: "find_ec ?s1 y = Some (Returned r2 s2)" and "root_of (roots ?s1) l r2" by blast
  with same1 have r2: "root_of (roots s) l r2" by simp
  from r1 r2 have "joined (roots s) k l \<longleftrightarrow> r1 = r2"
    unfolding joined_def using root_of_det by blast
  with f1 f2 show ?thesis by (simp add: same_class_def)
qed

lemma union_ec_joined:
  assumes inv: "invar s" and a: "identifiers s a = Some i" and b: "identifiers s b = Some j"
  shows "\<exists>s'. union_ec s a b = Some (Returned () s') \<and> invar s' \<and>
           identifiers s' = identifiers s \<and> nodes s' = nodes s \<and>
           count_field s' = (if joined (roots s) i j then count_field s else count_field s - 1) \<and>
           (\<forall>k l. joined (roots s') k l \<longleftrightarrow>
              joined (roots s) k l \<or> joined (roots s) k i \<and> joined (roots s) l j \<or>
              joined (roots s) k j \<and> joined (roots s) l i)"
proof -
  from union_ec_returns[OF inv a b] obtain ra rb rs2 where
    ra: "root_of (roots s) i ra" and rb: "root_of (roots s) j rb"
    and len: "length rs2 = length (roots s)" and f2: "forest rs2"
    and same: "\<And>k y. root_of rs2 k y = root_of (roots s) k y"
    and u: "union_ec s a b = Some (Returned ()
             (if ra = rb then s\<lparr>roots := rs2\<rparr>
              else if sizes s ! ra < sizes s ! rb then linked s rs2 ra rb
              else linked s rs2 rb ra))" (is "_ = Some (Returned () ?s')") by blast
  from invar_union[OF inv u] have inv': "invar ?s'" by simp
  from union_ec_ids[OF inv u] have ids: "identifiers ?s' = identifiers s" "nodes ?s' = nodes s"
    by simp_all
  have ij: "joined (roots s) i j \<longleftrightarrow> ra = rb"
    using ra rb unfolding joined_def using root_of_det by blast
  have cnt: "count_field ?s' = (if joined (roots s) i j then count_field s else count_field s - 1)"
    unfolding ij by (simp add: linked_def)
  have J: "joined (roots s) k i \<longleftrightarrow> root_of (roots s) k ra"
    "joined (roots s) k j \<longleftrightarrow> root_of (roots s) k rb" for k
    using joined_root[OF ra] joined_root[OF rb] by simp_all
  have j2: "joined rs2 k l = joined (roots s) k l" for k l
    using joined_same_roots[of rs2 "roots s"] same by simp
  have rr: "root_of rs2 ra ra" "root_of rs2 rb rb"
    using root_of_idem[OF ra] root_of_idem[OF rb] same by simp_all
  have "joined (roots ?s') k l \<longleftrightarrow>
              joined (roots s) k l \<or> joined (roots s) k i \<and> joined (roots s) l j \<or>
              joined (roots s) k j \<and> joined (roots s) l i" for k l
  proof (cases "ra = rb")
    case True
    then have "joined (roots ?s') k l = joined (roots s) k l" by (simp add: j2)
    moreover from True have "root_of (roots s) k ra \<and> root_of (roots s) l rb \<Longrightarrow> joined (roots s) k l"
      and "root_of (roots s) k rb \<and> root_of (roots s) l ra \<Longrightarrow> joined (roots s) k l"
      unfolding joined_def by blast+
    ultimately show ?thesis unfolding J by blast
  next
    case False
    then have ne: "rb \<noteq> ra" by simp
    show ?thesis
    proof (cases "sizes s ! ra < sizes s ! rb")
      case True
      with False have "roots ?s' = rs2[ra := rb]" by (simp add: linked_def)
      then show ?thesis
        unfolding J using joined_link[OF f2 rr(1) rr(2) False, of k l] same j2 by auto
    next
      case lt: False
      with False have "roots ?s' = rs2[rb := ra]" by (simp add: linked_def)
      then show ?thesis
        unfolding J using joined_link[OF f2 rr(2) rr(1) ne, of k l] same j2 by auto
    qed
  qed
  with u inv' ids cnt show ?thesis by blast
qed

lemma joined_refl: "forest rs \<Longrightarrow> i < length rs \<Longrightarrow> joined rs i i"
  unfolding joined_def using forest_total by blast

lemma small_reachable: "reachable small_state"
  unfolding small_state_def by (rule reachableI) code_simp

lemma contains_iff: "contains s x \<longleftrightarrow> (\<exists>i. identifiers s x = Some i)"
  by (simp add: contains_def)

lemma connect_joined:
  assumes inv: "invar s" and a: "identifiers s a = Some i" and b: "identifiers s b = Some j"
  shows "\<exists>s'. connect s a b = Some (Returned () s') \<and> invar s' \<and>
           identifiers s' = identifiers s \<and> nodes s' = add_edge (nodes s) i j \<and>
           count_field s' = (if joined (roots s) i j then count_field s else count_field s - 1) \<and>
           (\<forall>k l. joined (roots s') k l \<longleftrightarrow>
              joined (roots s) k l \<or> joined (roots s) k i \<and> joined (roots s) l j \<or>
              joined (roots s) k j \<and> joined (roots s) l i)"
proof -
  from connect_returns[OF inv a b] obtain s1 where
    u: "union_ec s a b = Some (Returned () s1)"
    and c: "connect s a b = Some (Returned () (s1\<lparr>nodes := add_edge (nodes s) i j\<rparr>))" by blast
  from union_ec_joined[OF inv a b] u have
    ids: "identifiers s1 = identifiers s"
    and cnt: "count_field s1 = (if joined (roots s) i j then count_field s else count_field s - 1)"
    and J: "\<forall>k l. joined (roots s1) k l \<longleftrightarrow>
              joined (roots s) k l \<or> joined (roots s) k i \<and> joined (roots s) l j \<or>
              joined (roots s) k j \<and> joined (roots s) l i" by auto
  from invar_connect[OF inv c] have "invar (s1\<lparr>nodes := add_edge (nodes s) i j\<rparr>)" by simp
  with c ids cnt J show ?thesis by simp
qed

lemma small_roots: "roots small_state = [0, 0, 2, 3]"
  unfolding small_state_def by code_simp

lemma same_roots_class:
  "(\<And>k x. root_of rs' k x = root_of rs k x) \<Longrightarrow> class_of rs' r = class_of rs r"
  by (simp add: class_of_def)

lemma union_ec_raises:
  assumes "identifiers s a = None \<or> identifiers s b = None"
  shows "union_ec s a b = Some (Raised
      (ValueError ''Both union identifiers must already exist within an equivalence class'') s)"
  using assms by (auto simp: union_ec_def split: option.splits)

lemma example_run: "run init example_calls = Some example_state"
proof -
  have "\<not> Option.is_none (run init example_calls)" by code_simp
  then show ?thesis unfolding example_state_def by (cases "run init example_calls") auto
qed

lemma find_ec_frame:
  assumes "invar s" "find_ec s x = Some out"
  shows "identifiers (state_after out) = identifiers s \<and> nodes (state_after out) = nodes s"
proof (cases "identifiers s x")
  case None
  with assms(2) show ?thesis by (auto simp: find_ec_def)
next
  case (Some i)
  from find_ec_returns[OF assms(1) Some] assms(2) show ?thesis by auto
qed

lemma connect_frame:
  assumes "invar s" "connect s a b = Some out"
  shows "identifiers (state_after out) = identifiers s \<and>
         (nodes (state_after out) = nodes s \<or>
          (\<exists>i j. identifiers s a = Some i \<and> identifiers s b = Some j \<and>
             nodes (state_after out) = add_edge (nodes s) i j))"
proof (cases "\<exists>i j. identifiers s a = Some i \<and> identifiers s b = Some j")
  case True
  then obtain i j where a: "identifiers s a = Some i" and b: "identifiers s b = Some j" by blast
  from connect_joined[OF assms(1) a b] assms(2) a b show ?thesis by auto
next
  case False
  then have "identifiers s a = None \<or> identifiers s b = None" by auto
  from connect_raises[OF this] assms(2) show ?thesis by auto
qed

lemma add_frame:
  "state_after (add s x) = s \<or>
   (identifiers s x = None \<and> nodes (state_after (add s x)) = nodes s @ [Node x] \<and>
    identifiers (state_after (add s x)) = (identifiers s)(x \<mapsto> length (roots s)))"
  by (simp add: add_def Let_def)

lemma ids_mono_exec:
  assumes inv: "invar s" and e: "exec s c = Some s'" and a: "identifiers s a = Some i"
  shows "identifiers s' a = Some i"
proof (cases c)
  case (Add x)
  with e have s': "s' = state_after (add s x)" by simp
  from add_frame[of s x] a show ?thesis unfolding s' by auto
next
  case (Find x)
  with e obtain out where "find_ec s x = Some out" "s' = state_after out" by auto
  with find_ec_frame[OF inv] a show ?thesis by simp
next
  case (Union x y)
  with e obtain out where "union_ec s x y = Some out" "s' = state_after out" by auto
  with union_ec_ids[OF inv] a show ?thesis by simp
next
  case (Connect x y)
  with e obtain out where "connect s x y = Some out" "s' = state_after out" by auto
  with connect_frame[OF inv] a show ?thesis by simp
next
  case (GetNode x)
  with e a show ?thesis by (simp add: get_node_state)
qed

lemma ids_mono_run:
  "invar s \<Longrightarrow> run s cs = Some s' \<Longrightarrow> identifiers s a = Some i \<Longrightarrow> identifiers s' a = Some i"
proof (induction cs arbitrary: s)
  case Nil
  then show ?case by simp
next
  case (Cons c cs)
  from Cons.prems(2) obtain s1 where e: "exec s c = Some s1" and r: "run s1 cs = Some s'"
    by (auto split: option.splits)
  from invar_exec[OF Cons.prems(1) e] r ids_mono_exec[OF Cons.prems(1) e Cons.prems(3)]
  show ?case by (rule Cons.IH)
qed

lemma edge_step:
  assumes inv: "invar s" and e: "exec s c = Some s'"
    and i: "i < length (nodes s')" and j: "j \<in> destinations (nodes s' ! i)"
  shows "(i < length (nodes s) \<and> j \<in> destinations (nodes s ! i)) \<or>
         (\<exists>a b. c = Connect a b \<and> identifiers s' a = Some i \<and> identifiers s' b = Some j)"
proof (cases c)
  case (Add x)
  with e have s': "s' = state_after (add s x)" by simp
  from add_frame[of s x] show ?thesis
  proof
    assume "state_after (add s x) = s"
    with s' i j show ?thesis by simp
  next
    assume "identifiers s x = None \<and> nodes (state_after (add s x)) = nodes s @ [Node x] \<and>
      identifiers (state_after (add s x)) = (identifiers s)(x \<mapsto> length (roots s))"
    then have n: "nodes s' = nodes s @ [Node x]" using s' by simp
    show ?thesis
    proof (cases "i < length (nodes s)")
      case True
      with j n show ?thesis by (simp add: nth_append)
    next
      case False
      with i n have "i = length (nodes s)" by simp
      then have "nodes s' ! i = Node x" using n by simp
      with j show ?thesis by (simp add: Node_def)
    qed
  qed
next
  case (Find x)
  with e obtain out where "find_ec s x = Some out" "s' = state_after out" by auto
  with find_ec_frame[OF inv] i j show ?thesis by simp
next
  case (Union x y)
  with e obtain out where "union_ec s x y = Some out" "s' = state_after out" by auto
  with union_ec_ids[OF inv] i j show ?thesis by simp
next
  case (Connect x y)
  with e obtain out where o: "connect s x y = Some out" "s' = state_after out" by auto
  from connect_frame[OF inv o(1)] o(2) have ids: "identifiers s' = identifiers s"
    and ns: "nodes s' = nodes s \<or>
          (\<exists>i j. identifiers s x = Some i \<and> identifiers s y = Some j \<and>
             nodes s' = add_edge (nodes s) i j)" by simp_all
  from ns show ?thesis
  proof
    assume "nodes s' = nodes s"
    with i j show ?thesis by simp
  next
    assume "\<exists>i j. identifiers s x = Some i \<and> identifiers s y = Some j \<and>
             nodes s' = add_edge (nodes s) i j"
    then obtain i0 j0 where x: "identifiers s x = Some i0" and y: "identifiers s y = Some j0"
      and n: "nodes s' = add_edge (nodes s) i0 j0" by blast
    from inv x y have b: "i0 < length (nodes s)" "j0 < length (nodes s)"
      by (simp_all add: invar_def wf_ids_def)
    from i n have i': "i < length (nodes s)" by (simp add: length_add_edge)
    from j n b have "j \<in> destinations (nodes s ! i) \<or> (i = i0 \<and> j = j0)"
      by (auto simp: add_edge_destinations split: if_splits)
    with i' x y ids Connect show ?thesis by auto
  qed
next
  case (GetNode x)
  with e i j show ?thesis by (simp add: get_node_state)
qed

lemma edge_history:
  "invar s \<Longrightarrow> run s cs = Some s' \<Longrightarrow> i < length (nodes s') \<Longrightarrow>
   j \<in> destinations (nodes s' ! i) \<Longrightarrow>
   (i < length (nodes s) \<and> j \<in> destinations (nodes s ! i)) \<or>
   (\<exists>a b. Connect a b \<in> set cs \<and> identifiers s' a = Some i \<and> identifiers s' b = Some j)"
proof (induction cs arbitrary: s)
  case Nil
  then show ?case by simp
next
  case (Cons c cs)
  from Cons.prems(2) obtain s1 where e: "exec s c = Some s1" and r: "run s1 cs = Some s'"
    by (auto split: option.splits)
  note inv1 = invar_exec[OF Cons.prems(1) e]
  from Cons.IH[OF inv1 r Cons.prems(3,4)] show ?case
  proof
    assume "i < length (nodes s1) \<and> j \<in> destinations (nodes s1 ! i)"
    then have "(i < length (nodes s) \<and> j \<in> destinations (nodes s ! i)) \<or>
         (\<exists>a b. c = Connect a b \<and> identifiers s1 a = Some i \<and> identifiers s1 b = Some j)"
      using edge_step[OF Cons.prems(1) e] by blast
    then show ?thesis
    proof
      assume "i < length (nodes s) \<and> j \<in> destinations (nodes s ! i)"
      then show ?thesis by blast
    next
      assume "\<exists>a b. c = Connect a b \<and> identifiers s1 a = Some i \<and> identifiers s1 b = Some j"
      then obtain a b where "c = Connect a b" "identifiers s1 a = Some i" "identifiers s1 b = Some j"
        by blast
      with ids_mono_run[OF inv1 r] have
        "Connect a b \<in> set (c # cs) \<and> identifiers s' a = Some i \<and> identifiers s' b = Some j"
        by simp
      then show ?thesis by blast
    qed
  next
    assume "\<exists>a b. Connect a b \<in> set cs \<and> identifiers s' a = Some i \<and> identifiers s' b = Some j"
    then show ?thesis by auto
  qed
qed

lemma ids_inj: "invar s \<Longrightarrow> identifiers s a = Some i \<Longrightarrow> identifiers s b = Some i \<Longrightarrow> a = b"
  unfolding invar_def wf_ids_def by metis

lemma edge_recorded:
  assumes r: "run init cs = Some s" and a: "identifiers s a = Some i"
    and b: "identifiers s b = Some j" and e: "j \<in> destinations (nodes s ! i)"
  shows "Connect a b \<in> set cs"
proof -
  from r have inv: "invar s" using invar_run[OF invar_init] by blast
  from inv a have i: "i < length (nodes s)" by (simp add: invar_def wf_ids_def)
  from edge_history[OF invar_init r i e] obtain a' b' where
    c: "Connect a' b' \<in> set cs" and "identifiers s a' = Some i" "identifiers s b' = Some j"
    by (auto simp: init_def)
  with a b ids_inj[OF inv] have "a' = a" "b' = b" by blast+
  with c show ?thesis by simp
qed

section \<open>The claims\<close>

text \<open>
  C8: in every reachable state the links form a forest. From any slot, following the
  links reaches a root (a slot that is its own parent) after finitely many steps, the
  only way back to a slot is the self-link of a root, and the loop of \<^verbatim>\<open>_find_root\<close>
  started at the slot comes back, returning that root.
\<close>

theorem forest_terminates:
  assumes "reachable s" "i < length (roots s)"
  shows "(\<exists>n r s'. ((!) (roots s) ^^ n) i = r \<and> r < length (roots s) \<and> roots s ! r = r \<and>
            find_root s i = Some (Returned r s')) \<and>
         (\<forall>n. 0 < n \<and> ((!) (roots s) ^^ n) i = i \<longrightarrow> roots s ! i = i)"
proof -
  from assms(1) have "forest (roots s)" using reachable_invar by (auto simp: invar_def)
  then obtain h where rk: "ranked h (roots s)" by (auto simp: forest_def)
  from find_root_returns[OF rk assms(2)] obtain r s' where
    fr: "find_root s i = Some (Returned r s')" and r: "root_of (roots s) i r" by blast
  from root_of_funpow[OF r] obtain n where "((!) (roots s) ^^ n) i = r" by blast
  with fr root_of_bound[OF r] have
    "\<exists>n r s'. ((!) (roots s) ^^ n) i = r \<and> r < length (roots s) \<and> roots s ! r = r \<and>
            find_root s i = Some (Returned r s')" by blast
  moreover have "\<forall>n. 0 < n \<and> ((!) (roots s) ^^ n) i = i \<longrightarrow> roots s ! i = i"
    using ranked_no_cycle[OF rk assms(2)] by blast
  ultimately show ?thesis by blast
qed

theorem forest_terminates_witness:
  "reachable example_state \<and> 1 < length (roots example_state) \<and>
   (\<exists>n r s'. ((!) (roots example_state) ^^ n) 1 = r \<and> r < length (roots example_state) \<and>
      roots example_state ! r = r \<and> find_root example_state 1 = Some (Returned r s'))"
proof -
  have l: "1 < length (roots example_state)" by (simp add: example_roots)
  from forest_terminates[OF example_reachable l] example_reachable l show ?thesis by blast
qed

text \<open>
  C2: in every reachable state the value of the \<^verbatim>\<open>count\<close> accessor is the number of root
  slots, that is, of slots \<open>i\<close> with \<open>roots ! i = i\<close>.
\<close>

theorem count_is_number_of_roots:
  assumes "reachable s"
  shows "count s = int (num_roots (roots s)) \<and>
         num_roots (roots s) = card {i. i < length (roots s) \<and> roots s ! i = i}"
proof -
  from assms have "count_field s = int (num_roots (roots s))"
    using reachable_invar by (auto simp: invar_def)
  moreover have "{k. root_of (roots s) k k} = {i. i < length (roots s) \<and> roots s ! i = i}"
    by (auto simp: root_of_self_iff)
  ultimately show ?thesis by (simp add: count_def num_roots_card)
qed

theorem count_is_number_of_roots_witness:
  "reachable example_state \<and> count example_state = 1 \<and> num_roots (roots example_state) = 1"
proof -
  have "num_roots (roots example_state) = 1" by (simp add: example_roots num_roots_def)
  with count_is_number_of_roots[OF example_reachable] example_reachable show ?thesis by simp
qed

text \<open>
  C1: for previously added identifiers \<open>a\<close> and \<open>b\<close>, \<^verbatim>\<open>union(a, b)\<close> returns; afterwards
  \<^verbatim>\<open>find(a) == find(b)\<close> holds, and the count is unchanged if \<^verbatim>\<open>find(a) == find(b)\<close> held
  before the call and is smaller by exactly one otherwise.
\<close>

theorem union_merges_classes:
  assumes "reachable s" "contains s a" "contains s b"
  shows "\<exists>s' before. union_ec s a b = Some (Returned () s') \<and>
           same_class s' a b = Some True \<and> same_class s a b = Some before \<and>
           count s' = (if before then count s else count s - 1)"
proof -
  from assms(1) have inv: "invar s" by (rule reachable_invar)
  from assms(2,3) obtain i j where a: "identifiers s a = Some i" and b: "identifiers s b = Some j"
    by (auto simp: contains_iff)
  from union_ec_joined[OF inv a b] obtain s' where
    u: "union_ec s a b = Some (Returned () s')" and inv': "invar s'"
    and ids: "identifiers s' = identifiers s"
    and cnt: "count_field s' = (if joined (roots s) i j then count_field s else count_field s - 1)"
    and J: "\<forall>k l. joined (roots s') k l \<longleftrightarrow>
              joined (roots s) k l \<or> joined (roots s) k i \<and> joined (roots s) l j \<or>
              joined (roots s) k j \<and> joined (roots s) l i" by blast
  from inv a b have "joined (roots s) i i" "joined (roots s) j j"
    by (auto simp: invar_def wf_ids_def intro: joined_refl)
  with J have "joined (roots s') i j" by blast
  moreover from a b ids have "identifiers s' a = Some i" "identifiers s' b = Some j" by simp_all
  ultimately have "same_class s' a b = Some True"
    using same_class_joined[OF inv'] by simp
  moreover have "same_class s a b = Some (joined (roots s) i j)"
    by (rule same_class_joined[OF inv a b])
  ultimately show ?thesis using u cnt by (auto simp: count_def)
qed

theorem union_merges_classes_witness:
  "reachable small_state \<and> contains small_state ''B2'' \<and> contains small_state ''B3'' \<and>
   same_class small_state ''B2'' ''B3'' = Some False \<and>
   (\<exists>s'. union_ec small_state ''B2'' ''B3'' = Some (Returned () s') \<and>
      same_class s' ''B2'' ''B3'' = Some True \<and> count s' = count small_state - 1)"
proof -
  have c: "contains small_state ''B2''" "contains small_state ''B3''"
    unfolding small_state_def by code_simp+
  have f: "same_class small_state ''B2'' ''B3'' = Some False"
    unfolding small_state_def by code_simp
  from union_merges_classes[OF small_reachable c] f small_reachable c show ?thesis by auto
qed

text \<open>
  C10: from a reachable state and two previously added identifiers, \<^verbatim>\<open>union(a, b)\<close> and
  \<^verbatim>\<open>union(b, a)\<close> both return, and the two resulting states have the same count and
  give the same answer to \<^verbatim>\<open>find(x) == find(y)\<close> for all previously added \<open>x\<close>, \<open>y\<close>.
\<close>

theorem union_commutes_up_to_partition:
  assumes "reachable s" "contains s a" "contains s b"
  shows "\<exists>s1 s2. union_ec s a b = Some (Returned () s1) \<and>
           union_ec s b a = Some (Returned () s2) \<and> count s1 = count s2 \<and>
           (\<forall>x y. contains s x \<and> contains s y \<longrightarrow>
              (\<exists>e. same_class s1 x y = Some e \<and> same_class s2 x y = Some e))"
proof -
  from assms(1) have inv: "invar s" by (rule reachable_invar)
  from assms(2,3) obtain i j where a: "identifiers s a = Some i" and b: "identifiers s b = Some j"
    by (auto simp: contains_iff)
  from union_ec_joined[OF inv a b] obtain s1 where
    u1: "union_ec s a b = Some (Returned () s1)" and inv1: "invar s1"
    and ids1: "identifiers s1 = identifiers s"
    and cnt1: "count_field s1 = (if joined (roots s) i j then count_field s else count_field s - 1)"
    and J1: "\<forall>k l. joined (roots s1) k l \<longleftrightarrow>
              joined (roots s) k l \<or> joined (roots s) k i \<and> joined (roots s) l j \<or>
              joined (roots s) k j \<and> joined (roots s) l i" by blast
  from union_ec_joined[OF inv b a] obtain s2 where
    u2: "union_ec s b a = Some (Returned () s2)" and inv2: "invar s2"
    and ids2: "identifiers s2 = identifiers s"
    and cnt2: "count_field s2 = (if joined (roots s) j i then count_field s else count_field s - 1)"
    and J2: "\<forall>k l. joined (roots s2) k l \<longleftrightarrow>
              joined (roots s) k l \<or> joined (roots s) k j \<and> joined (roots s) l i \<or>
              joined (roots s) k i \<and> joined (roots s) l j" by blast
  have "count s1 = count s2" using cnt1 cnt2 joined_sym[of "roots s" i j] by (simp add: count_def)
  moreover have "\<exists>e. same_class s1 x y = Some e \<and> same_class s2 x y = Some e"
    if "contains s x \<and> contains s y" for x y
  proof -
    from that obtain k l where x: "identifiers s x = Some k" and y: "identifiers s y = Some l"
      by (auto simp: contains_iff)
    from x y ids1 have "same_class s1 x y = Some (joined (roots s1) k l)"
      using same_class_joined[OF inv1] by simp
    moreover from x y ids2 have "same_class s2 x y = Some (joined (roots s2) k l)"
      using same_class_joined[OF inv2] by simp
    moreover have "joined (roots s1) k l = joined (roots s2) k l" using J1 J2 by blast
    ultimately show ?thesis by simp
  qed
  ultimately show ?thesis using u1 u2 by blast
qed

theorem union_commutes_up_to_partition_witness:
  "reachable small_state \<and> contains small_state ''B3'' \<and> contains small_state ''B4'' \<and>
   (\<exists>s1 s2. union_ec small_state ''B3'' ''B4'' = Some (Returned () s1) \<and>
      union_ec small_state ''B4'' ''B3'' = Some (Returned () s2) \<and> count s1 = count s2 \<and>
      (\<exists>e. same_class s1 ''B1'' ''B3'' = Some e \<and> same_class s2 ''B1'' ''B3'' = Some e))"
proof -
  have c: "contains small_state ''B3''" "contains small_state ''B4''" "contains small_state ''B1''"
    unfolding small_state_def by code_simp+
  from union_commutes_up_to_partition[OF small_reachable c(1,2)] small_reachable c
  show ?thesis by blast
qed

text \<open>
  C9: for a previously added identifier \<open>a\<close>, \<^verbatim>\<open>connect(a, a)\<close> returns, leaves the count
  and every answer to \<^verbatim>\<open>find(x) == find(y)\<close> unchanged, and afterwards the vertex of \<open>a\<close>
  is in its own \<^verbatim>\<open>destinations\<close> and in its own \<^verbatim>\<open>sources\<close>.
\<close>

theorem connect_self_loop:
  assumes "reachable s" "identifiers s a = Some i"
  shows "\<exists>s'. connect s a a = Some (Returned () s') \<and> count s' = count s \<and>
           (\<forall>x y. contains s x \<and> contains s y \<longrightarrow>
              (\<exists>e. same_class s' x y = Some e \<and> same_class s x y = Some e)) \<and>
           get_node s' a = Returned i s' \<and>
           i \<in> destinations (nodes s' ! i) \<and> i \<in> sources (nodes s' ! i)"
proof -
  from assms(1) have inv: "invar s" by (rule reachable_invar)
  note a = assms(2)
  from inv a have i: "i < length (nodes s)" by (simp add: invar_def wf_ids_def)
  then have ii: "joined (roots s) i i" using inv by (auto simp: invar_def wf_ids_def intro: joined_refl)
  from connect_joined[OF inv a a] obtain s' where
    c: "connect s a a = Some (Returned () s')" and inv': "invar s'"
    and ids: "identifiers s' = identifiers s" and ns: "nodes s' = add_edge (nodes s) i i"
    and cnt: "count_field s' = (if joined (roots s) i i then count_field s else count_field s - 1)"
    and J: "\<forall>k l. joined (roots s') k l \<longleftrightarrow>
              joined (roots s) k l \<or> joined (roots s) k i \<and> joined (roots s) l i \<or>
              joined (roots s) k i \<and> joined (roots s) l i" by blast
  have tr: "joined (roots s) k i \<and> joined (roots s) l i \<Longrightarrow> joined (roots s) k l" for k l
    unfolding joined_def using root_of_det by blast
  have "count s' = count s" using cnt ii by (simp add: count_def)
  moreover have "\<exists>e. same_class s' x y = Some e \<and> same_class s x y = Some e"
    if "contains s x \<and> contains s y" for x y
  proof -
    from that obtain k l where x: "identifiers s x = Some k" and y: "identifiers s y = Some l"
      by (auto simp: contains_iff)
    from x y ids have "same_class s' x y = Some (joined (roots s') k l)"
      using same_class_joined[OF inv'] by simp
    moreover have "same_class s x y = Some (joined (roots s) k l)"
      by (rule same_class_joined[OF inv x y])
    moreover have "joined (roots s') k l = joined (roots s) k l" using J tr by blast
    ultimately show ?thesis by simp
  qed
  moreover have "get_node s' a = Returned i s'"
    using get_node_returns[OF inv'] a ids by simp
  moreover have "i \<in> destinations (nodes s' ! i)" "i \<in> sources (nodes s' ! i)"
    using i by (simp_all add: ns add_edge_destinations add_edge_sources)
  ultimately show ?thesis using c by blast
qed

theorem connect_self_loop_witness:
  "reachable small_state \<and> identifiers small_state ''B3'' = Some 2 \<and>
   (\<exists>s'. connect small_state ''B3'' ''B3'' = Some (Returned () s') \<and> count s' = count small_state \<and>
      get_node s' ''B3'' = Returned 2 s' \<and>
      2 \<in> destinations (nodes s' ! 2) \<and> 2 \<in> sources (nodes s' ! 2))"
proof -
  have i: "identifiers small_state ''B3'' = Some 2"
    unfolding small_state_def by code_simp
  from connect_self_loop[OF small_reachable i] small_reachable i show ?thesis by blast
qed

text \<open>
  C3: for a previously added identifier, \<^verbatim>\<open>find\<close> returns the root of the identifier's
  slot. Every slot the loop visits gets the parent of its parent as its new parent, no
  other slot is written, and the answer to \<^verbatim>\<open>find(y) == find(z)\<close> is the same after the
  call as before it, for all previously added \<open>y\<close> and \<open>z\<close>.
\<close>

theorem find_halves_paths:
  assumes "reachable s" "identifiers s x = Some i"
  shows "\<exists>r rs' vs. find_ec s x = Some (Returned r (s\<lparr>roots := rs'\<rparr>)) \<and>
           root_of (roots s) i r \<and> roots s ! r = r \<and> rs' ! r = r \<and>
           visits (roots s) i vs \<and> last vs = r \<and>
           (\<forall>v \<in> set vs. rs' ! v = roots s ! (roots s ! v)) \<and>
           (\<forall>k. k \<notin> set vs \<longrightarrow> rs' ! k = roots s ! k) \<and>
           (\<forall>y z. contains s y \<and> contains s z \<longrightarrow>
              (\<exists>e. same_class (s\<lparr>roots := rs'\<rparr>) y z = Some e \<and> same_class s y z = Some e))"
proof -
  from assms(1) have inv: "invar s" by (rule reachable_invar)
  then have "forest (roots s)" and i: "i < length (roots s)"
    using assms(2) by (simp_all add: invar_def wf_ids_def)
  then obtain h where rk: "ranked h (roots s)" by (auto simp: forest_def)
  from find_root_returns[OF rk i] obtain r rs' where
    fr: "find_root s i = Some (Returned r (s\<lparr>roots := rs'\<rparr>))" and r: "root_of (roots s) i r"
    and len: "length rs' = length (roots s)" and rk': "ranked h rs'"
    and same: "\<And>k y. root_of rs' k y = root_of (roots s) k y" by blast
  from find_root_visits[OF rk i] fr obtain vs where
    vs: "visits (roots s) i vs" "last vs = r"
    and upd: "\<forall>v \<in> set vs. rs' ! v = roots s ! (roots s ! v)"
    and rest: "\<forall>k. k \<notin> set vs \<longrightarrow> rs' ! k = roots s ! k"
    by (auto dest: arg_cong[where f = roots])
  from r have rr: "roots s ! r = r" "root_of (roots s) r r"
    using root_of_bound root_of_idem by blast+
  from rr(2) same have "root_of rs' r r" by simp
  then have "rs' ! r = r" by (simp add: root_of_self_iff)
  have f': "forest rs'" using rk' by (auto simp: forest_def)
  from invar_roots_update[OF inv len f' same] have inv': "invar (s\<lparr>roots := rs'\<rparr>)" .
  have "\<exists>e. same_class (s\<lparr>roots := rs'\<rparr>) y z = Some e \<and> same_class s y z = Some e"
    if "contains s y \<and> contains s z" for y z
  proof -
    from that obtain k l where y: "identifiers s y = Some k" and z: "identifiers s z = Some l"
      by (auto simp: contains_iff)
    from y z have "same_class (s\<lparr>roots := rs'\<rparr>) y z = Some (joined rs' k l)"
      using same_class_joined[OF inv'] by simp
    moreover have "same_class s y z = Some (joined (roots s) k l)"
      by (rule same_class_joined[OF inv y z])
    moreover have "joined rs' k l = joined (roots s) k l"
      using joined_same_roots[of rs' "roots s"] same by simp
    ultimately show ?thesis by simp
  qed
  moreover have "find_ec s x = Some (Returned r (s\<lparr>roots := rs'\<rparr>))"
    using fr assms(2) by (simp add: find_ec_def)
  ultimately show ?thesis using r rr(1) \<open>rs' ! r = r\<close> vs upd rest by blast
qed

theorem find_halves_paths_witness:
  "reachable example_state \<and> identifiers example_state ''B2'' = Some 1 \<and>
   roots example_state = [2, 0, 2, 2] \<and>
   map_option (roots \<circ> state_after) (find_ec example_state ''B2'') = Some [2, 2, 2, 2] \<and>
   (\<exists>r rs' vs. find_ec example_state ''B2'' = Some (Returned r (example_state\<lparr>roots := rs'\<rparr>)) \<and>
      roots example_state ! r = r \<and> visits (roots example_state) 1 vs \<and> last vs = r)"
proof -
  have i: "identifiers example_state ''B2'' = Some 1"
    unfolding example_state_def by code_simp
  have v: "map_option (roots \<circ> state_after) (find_ec example_state ''B2'') = Some [2, 2, 2, 2]"
    unfolding example_state_def by code_simp
  from find_halves_paths[OF example_reachable i] example_reachable i v example_roots
  show ?thesis by blast
qed

text \<open>
  C4: when \<^verbatim>\<open>union(a, b)\<close> is called on previously added identifiers whose roots \<open>ra\<close> and
  \<open>rb\<close> differ, the sizes recorded for the two roots are the sizes of their trees; if the
  size of \<open>ra\<close> is smaller, \<open>ra\<close> is attached under \<open>rb\<close>, otherwise (also when the sizes are
  equal) \<open>rb\<close> is attached under \<open>ra\<close>; the surviving root stays a root, its recorded size
  becomes the sum of the two sizes, and its tree is the union of the two trees.
\<close>

theorem union_by_size:
  assumes "reachable s" "identifiers s a = Some i" "identifiers s b = Some j"
    "root_of (roots s) i ra" "root_of (roots s) j rb" "ra \<noteq> rb"
  shows "\<exists>s'. union_ec s a b = Some (Returned () s') \<and>
           sizes s ! ra = int (card (class_of (roots s) ra)) \<and>
           sizes s ! rb = int (card (class_of (roots s) rb)) \<and>
           (if sizes s ! ra < sizes s ! rb
            then roots s' ! ra = rb \<and> roots s' ! rb = rb \<and>
                 sizes s' ! rb = sizes s ! ra + sizes s ! rb \<and>
                 class_of (roots s') rb = class_of (roots s) ra \<union> class_of (roots s) rb
            else roots s' ! rb = ra \<and> roots s' ! ra = ra \<and>
                 sizes s' ! ra = sizes s ! ra + sizes s ! rb \<and>
                 class_of (roots s') ra = class_of (roots s) ra \<union> class_of (roots s) rb)"
proof -
  from assms(1) have inv: "invar s" by (rule reachable_invar)
  from union_ec_returns[OF inv assms(2,3)] obtain ra' rb' rs2 where
    ra': "root_of (roots s) i ra'" and rb': "root_of (roots s) j rb'"
    and len: "length rs2 = length (roots s)" and f2: "forest rs2"
    and same: "\<And>k y. root_of rs2 k y = root_of (roots s) k y"
    and u: "union_ec s a b = Some (Returned ()
             (if ra' = rb' then s\<lparr>roots := rs2\<rparr>
              else if sizes s ! ra' < sizes s ! rb' then linked s rs2 ra' rb'
              else linked s rs2 rb' ra'))" by blast
  from ra' rb' assms(4,5) have e: "ra' = ra" "rb' = rb" using root_of_det by blast+
  from assms(4,5) have rr: "root_of (roots s) ra ra" "root_of (roots s) rb rb"
    using root_of_idem by blast+
  with same have rr2: "root_of rs2 ra ra" "root_of rs2 rb rb" by simp_all
  then have a2: "ra < length rs2" "rs2 ! ra = ra" and b2: "rb < length rs2" "rs2 ! rb = rb"
    by (simp_all add: root_of_self_iff)
  from inv have slen: "length (sizes s) = length (roots s)" and sz: "sizes_ok (roots s) (sizes s)"
    by (simp_all add: invar_def wf_ids_def)
  from sz rr have szs: "sizes s ! ra = int (card (class_of (roots s) ra))"
    "sizes s ! rb = int (card (class_of (roots s) rb))" by (simp_all add: sizes_ok_def)
  have cls: "class_of rs2 r = class_of (roots s) r" for r
    using same_roots_class[of rs2 "roots s"] same by simp
  have ne: "rb \<noteq> ra" using assms(6) by simp
  show ?thesis
  proof (cases "sizes s ! ra < sizes s ! rb")
    case True
    with u e assms(6) have "union_ec s a b = Some (Returned () (linked s rs2 ra rb))" by simp
    moreover have "roots (linked s rs2 ra rb) ! ra = rb" "roots (linked s rs2 ra rb) ! rb = rb"
      using a2 b2 assms(6) by (simp_all add: linked_def)
    moreover have "sizes (linked s rs2 ra rb) ! rb = sizes s ! ra + sizes s ! rb"
      using b2 len slen by (simp add: linked_def)
    moreover have "class_of (roots (linked s rs2 ra rb)) rb =
        class_of (roots s) ra \<union> class_of (roots s) rb"
      using class_of_link[OF f2 a2 b2 assms(6), of rb] cls by (simp add: linked_def)
    ultimately show ?thesis using True szs by auto
  next
    case False
    with u e assms(6) have "union_ec s a b = Some (Returned () (linked s rs2 rb ra))" by simp
    moreover have "roots (linked s rs2 rb ra) ! rb = ra" "roots (linked s rs2 rb ra) ! ra = ra"
      using a2 b2 assms(6) by (simp_all add: linked_def)
    moreover have "sizes (linked s rs2 rb ra) ! ra = sizes s ! ra + sizes s ! rb"
      using a2 len slen by (simp add: linked_def)
    moreover have "class_of (roots (linked s rs2 rb ra)) ra =
        class_of (roots s) ra \<union> class_of (roots s) rb"
      using class_of_link[OF f2 b2 a2 ne, of ra] cls by (auto simp: linked_def)
    ultimately show ?thesis using False szs by auto
  qed
qed

theorem union_by_size_witness:
  "reachable small_state \<and> identifiers small_state ''B3'' = Some 2 \<and>
   identifiers small_state ''B2'' = Some 1 \<and> root_of (roots small_state) 2 2 \<and>
   root_of (roots small_state) 1 0 \<and> sizes small_state ! 2 = 1 \<and> sizes small_state ! 0 = 2 \<and>
   (\<exists>s'. union_ec small_state ''B3'' ''B2'' = Some (Returned () s') \<and>
      roots s' ! 2 = 0 \<and> roots s' ! 0 = 0 \<and> sizes s' ! 0 = 3)"
proof -
  have i: "identifiers small_state ''B3'' = Some 2" "identifiers small_state ''B2'' = Some 1"
    unfolding small_state_def by code_simp+
  have r2: "root_of (roots small_state) 2 2" by (simp add: root_of_self_iff small_roots)
  have "root_of (roots small_state) 0 0" by (simp add: root_of_self_iff small_roots)
  then have r1: "root_of (roots small_state) 1 0"
    by (intro root_of_parent[of 1]) (simp_all add: small_roots)
  have sz: "sizes small_state ! 2 = 1" "sizes small_state ! 0 = 2"
    unfolding small_state_def by code_simp+
  have ne: "(2::nat) \<noteq> 0" by simp
  from union_by_size[OF small_reachable i r2 r1 ne] sz small_reachable i r2 r1
  show ?thesis by auto
qed

text \<open>
  C6: in a reachable state, \<^verbatim>\<open>add\<close> of a registered identifier raises and leaves the
  object as it was, and \<^verbatim>\<open>find\<close>, \<^verbatim>\<open>get_node\<close>, \<^verbatim>\<open>union\<close> and \<^verbatim>\<open>connect\<close> with an
  identifier that was never added (in either position) raise and leave the object as
  it was; more generally every call that raises leaves the object as it was.
\<close>

theorem failing_calls_change_nothing:
  assumes "reachable s"
  shows "(contains s x \<longrightarrow>
            add s x = Raised (ValueError ''Item already exists within EquivalenceClasses'') s) \<and>
         (\<not> contains s x \<longrightarrow>
            find_ec s x = Some (Raised KeyError s) \<and>
            get_node s x = Raised (ValueError ''Identifier not tracked by equivalence classes'') s \<and>
            union_ec s x y = Some (Raised (ValueError
              ''Both union identifiers must already exist within an equivalence class'') s) \<and>
            union_ec s y x = Some (Raised (ValueError
              ''Both union identifiers must already exist within an equivalence class'') s) \<and>
            connect s x y = Some (Raised (ValueError
              ''Both union identifiers must already exist within an equivalence class'') s) \<and>
            connect s y x = Some (Raised (ValueError
              ''Both union identifiers must already exist within an equivalence class'') s)) \<and>
         (\<forall>e s'. add s x = Raised e s' \<longrightarrow> s' = s) \<and>
         (\<forall>e s'. find_ec s x = Some (Raised e s') \<longrightarrow> s' = s) \<and>
         (\<forall>e s'. union_ec s x y = Some (Raised e s') \<longrightarrow> s' = s) \<and>
         (\<forall>e s'. connect s x y = Some (Raised e s') \<longrightarrow> s' = s) \<and>
         (\<forall>e s'. get_node s x = Raised e s' \<longrightarrow> s' = s)"
proof -
  from assms have inv: "invar s" by (rule reachable_invar)
  have 1: "contains s x \<longrightarrow>
            add s x = Raised (ValueError ''Item already exists within EquivalenceClasses'') s"
    by (simp add: contains_def add_def)
  have 2: "\<not> contains s x \<longrightarrow>
            find_ec s x = Some (Raised KeyError s) \<and>
            get_node s x = Raised (ValueError ''Identifier not tracked by equivalence classes'') s"
    by (simp add: contains_def find_ec_def get_node_def)
  have 3: "\<not> contains s x \<longrightarrow>
            union_ec s x y = Some (Raised (ValueError
              ''Both union identifiers must already exist within an equivalence class'') s) \<and>
            union_ec s y x = Some (Raised (ValueError
              ''Both union identifiers must already exist within an equivalence class'') s)"
    using union_ec_raises[of s x y] union_ec_raises[of s y x] by (simp add: contains_def)
  have 4: "\<not> contains s x \<longrightarrow>
            connect s x y = Some (Raised (ValueError
              ''Both union identifiers must already exist within an equivalence class'') s) \<and>
            connect s y x = Some (Raised (ValueError
              ''Both union identifiers must already exist within an equivalence class'') s)"
    using connect_raises[of s x y] connect_raises[of s y x] by (simp add: contains_def)
  have 5: "\<forall>e s'. add s x = Raised e s' \<longrightarrow> s' = s"
    by (auto simp: add_def Let_def split: if_splits)
  have 6: "\<forall>e s'. find_ec s x = Some (Raised e s') \<longrightarrow> s' = s"
  proof (cases "identifiers s x")
    case None
    then show ?thesis by (simp add: find_ec_def)
  next
    case (Some i)
    from find_ec_returns[OF inv Some] show ?thesis by auto
  qed
  have 7: "\<forall>e s'. union_ec s x y = Some (Raised e s') \<longrightarrow> s' = s"
  proof (cases "\<exists>i j. identifiers s x = Some i \<and> identifiers s y = Some j")
    case True
    then obtain i j where "identifiers s x = Some i" "identifiers s y = Some j" by blast
    from union_ec_returns[OF inv this] show ?thesis by auto
  next
    case False
    then have "identifiers s x = None \<or> identifiers s y = None" by auto
    from union_ec_raises[OF this] show ?thesis by simp
  qed
  have 8: "\<forall>e s'. connect s x y = Some (Raised e s') \<longrightarrow> s' = s"
  proof (cases "\<exists>i j. identifiers s x = Some i \<and> identifiers s y = Some j")
    case True
    then obtain i j where "identifiers s x = Some i" "identifiers s y = Some j" by blast
    from connect_returns[OF inv this] show ?thesis by auto
  next
    case False
    then have "identifiers s x = None \<or> identifiers s y = None" by auto
    from connect_raises[OF this] show ?thesis by simp
  qed
  have 9: "\<forall>e s'. get_node s x = Raised e s' \<longrightarrow> s' = s"
    by (auto simp: get_node_def split: option.splits if_splits)
  from 1 2 3 4 5 6 7 8 9 show ?thesis by blast
qed

theorem failing_calls_change_nothing_witness:
  "reachable example_state \<and> contains example_state ''B1'' \<and> \<not> contains example_state ''B9'' \<and>
   add example_state ''B1'' =
     Raised (ValueError ''Item already exists within EquivalenceClasses'') example_state \<and>
   find_ec example_state ''B9'' = Some (Raised KeyError example_state) \<and>
   connect example_state ''B1'' ''B9'' = Some (Raised (ValueError
     ''Both union identifiers must already exist within an equivalence class'') example_state)"
proof -
  have c: "contains example_state ''B1''" "\<not> contains example_state ''B9''"
    unfolding example_state_def by code_simp+
  from failing_calls_change_nothing[OF example_reachable, of "''B1''" "''B1''"]
    failing_calls_change_nothing[OF example_reachable, of "''B9''" "''B1''"]
    c example_reachable
  show ?thesis by blast
qed

text \<open>
  C7 as stated does not hold of the code. In the example state, \<^verbatim>\<open>add\<close> of the registered
  \<open>B1\<close> and \<^verbatim>\<open>union\<close>, \<^verbatim>\<open>connect\<close> and \<^verbatim>\<open>get_node\<close> with the unknown \<open>B9\<close> all raise an
  error of kind \<^verbatim>\<open>ValueError\<close>, so the duplicate case and the unknown case have the same
  kind, while \<^verbatim>\<open>find\<close> of \<open>B9\<close> raises a \<^verbatim>\<open>KeyError\<close>, a kind the other lookups do not
  raise.
\<close>

theorem error_kinds_counterexample:
  "raised_kind (Some (add example_state ''B1'')) = Some ValueError_kind \<and>
   raised_kind (union_ec example_state ''B9'' ''B1'') = Some ValueError_kind \<and>
   raised_kind (connect example_state ''B9'' ''B1'') = Some ValueError_kind \<and>
   raised_kind (Some (get_node example_state ''B9'')) = Some ValueError_kind \<and>
   raised_kind (find_ec example_state ''B9'') = Some KeyError_kind \<and>
   raised_kind (Some (add example_state ''B1'')) = raised_kind (union_ec example_state ''B9'' ''B1'') \<and>
   raised_kind (find_ec example_state ''B9'') \<noteq> raised_kind (union_ec example_state ''B9'' ''B1'')"
  unfolding example_state_def by code_simp

text \<open>
  C7, as the code has it: the error of \<^verbatim>\<open>add\<close> for a registered identifier and the errors
  of \<^verbatim>\<open>union\<close>, \<^verbatim>\<open>connect\<close> and \<^verbatim>\<open>get_node\<close> for an identifier that was never added all
  have the same kind, \<^verbatim>\<open>ValueError\<close>; \<^verbatim>\<open>union\<close> and \<^verbatim>\<open>connect\<close> raise the same error, and
  the error of \<^verbatim>\<open>add\<close> differs from the errors of the other three only in its message.
\<close>

theorem errors_differ_by_message:
  assumes "contains s x" "\<not> contains s u"
  shows "\<exists>e1 e2 e3. add s x = Raised e1 s \<and>
           union_ec s u y = Some (Raised e2 s) \<and> union_ec s y u = Some (Raised e2 s) \<and>
           connect s u y = Some (Raised e2 s) \<and> connect s y u = Some (Raised e2 s) \<and>
           get_node s u = Raised e3 s \<and>
           kind_of e1 = ValueError_kind \<and> kind_of e2 = ValueError_kind \<and>
           kind_of e3 = ValueError_kind \<and> e1 \<noteq> e2 \<and> e1 \<noteq> e3"
proof -
  from assms have "identifiers s x \<noteq> None" and u: "identifiers s u = None"
    by (simp_all add: contains_def)
  then have "add s x = Raised (ValueError ''Item already exists within EquivalenceClasses'') s"
    by (simp add: add_def)
  moreover from u have
    "get_node s u = Raised (ValueError ''Identifier not tracked by equivalence classes'') s"
    by (simp add: get_node_def)
  moreover note union_ec_raises[of s u y] union_ec_raises[of s y u]
    connect_raises[of s u y] connect_raises[of s y u]
  ultimately show ?thesis using u by (intro exI conjI) (assumption | simp)+
qed

theorem errors_differ_by_message_witness:
  "contains example_state ''B1'' \<and> \<not> contains example_state ''B9'' \<and>
   (\<exists>e1 e2 e3. add example_state ''B1'' = Raised e1 example_state \<and>
      union_ec example_state ''B9'' ''B1'' = Some (Raised e2 example_state) \<and>
      get_node example_state ''B9'' = Raised e3 example_state \<and>
      kind_of e1 = ValueError_kind \<and> kind_of e2 = ValueError_kind \<and>
      kind_of e3 = ValueError_kind \<and> e1 \<noteq> e2 \<and> e1 \<noteq> e3)"
proof -
  have c: "contains example_state ''B1''" "\<not> contains example_state ''B9''"
    unfolding example_state_def by code_simp+
  from errors_differ_by_message[OF c, of "''B1''"] c show ?thesis by blast
qed

text \<open>
  C5: let \<open>s\<close> be the state after the calls \<open>cs\<close> on a fresh object, and \<open>a\<close>, \<open>b\<close>
  previously added identifiers with vertices \<open>i\<close> and \<open>j\<close>. The bookkeeping in \<open>s\<close> is
  symmetric (\<open>b\<close> is among the destinations of \<open>a\<close> iff \<open>a\<close> is among the sources of \<open>b\<close>),
  and an edge is recorded only if the matching \<^verbatim>\<open>connect\<close> is among the calls. The call
  \<^verbatim>\<open>connect(a, b)\<close> returns; afterwards \<open>b\<close> is among the destinations of \<open>a\<close> and \<open>a\<close>
  among the sources of \<open>b\<close>, and for distinct \<open>a\<close> and \<open>b\<close>, \<open>a\<close> is among the destinations
  of \<open>b\<close> only if \<^verbatim>\<open>connect(b, a)\<close> is among the calls \<open>cs\<close>.
\<close>

theorem connect_records_edge:
  assumes "run init cs = Some s" "identifiers s a = Some i" "identifiers s b = Some j"
  shows "(j \<in> destinations (nodes s ! i) \<longleftrightarrow> i \<in> sources (nodes s ! j)) \<and>
         (j \<in> destinations (nodes s ! i) \<longrightarrow> Connect a b \<in> set cs) \<and>
         (\<exists>s'. connect s a b = Some (Returned () s') \<and>
            get_node s' a = Returned i s' \<and> get_node s' b = Returned j s' \<and>
            j \<in> destinations (nodes s' ! i) \<and> i \<in> sources (nodes s' ! j) \<and>
            (a \<noteq> b \<and> i \<in> destinations (nodes s' ! j) \<longrightarrow> Connect b a \<in> set cs))"
proof -
  from assms(1) have inv: "invar s" using invar_run[OF invar_init] by blast
  note a = assms(2) and b = assms(3)
  from inv a b have i: "i < length (nodes s)" and j: "j < length (nodes s)"
    and ed: "edges_ok (nodes s)" by (simp_all add: invar_def wf_ids_def)
  from ed i j have sym: "j \<in> destinations (nodes s ! i) \<longleftrightarrow> i \<in> sources (nodes s ! j)"
    unfolding edges_ok_def by blast
  have hist: "j \<in> destinations (nodes s ! i) \<longrightarrow> Connect a b \<in> set cs"
    using edge_recorded[OF assms(1) a b] by blast
  from connect_joined[OF inv a b] obtain s' where
    c: "connect s a b = Some (Returned () s')" and inv': "invar s'"
    and ids: "identifiers s' = identifiers s" and ns: "nodes s' = add_edge (nodes s) i j"
    by blast
  have g: "get_node s' a = Returned i s'" "get_node s' b = Returned j s'"
    using get_node_returns[OF inv'] a b ids by simp_all
  have new: "j \<in> destinations (nodes s' ! i)" "i \<in> sources (nodes s' ! j)"
    using i j by (simp_all add: ns add_edge_destinations add_edge_sources)
  have bk: "a \<noteq> b \<and> i \<in> destinations (nodes s' ! j) \<longrightarrow> Connect b a \<in> set cs"
  proof
    assume h: "a \<noteq> b \<and> i \<in> destinations (nodes s' ! j)"
    with ids_inj[OF inv a] b have "i \<noteq> j" by blast
    with h i j have "i \<in> destinations (nodes s ! j)"
      by (simp add: ns add_edge_destinations)
    with edge_recorded[OF assms(1) b a] show "Connect b a \<in> set cs" by blast
  qed
  from sym hist c g new bk show ?thesis by blast
qed

theorem connect_records_edge_witness:
  "run init example_calls = Some example_state \<and> identifiers example_state ''B2'' = Some 1 \<and>
   identifiers example_state ''B3'' = Some 2 \<and>
   (\<exists>s'. connect example_state ''B2'' ''B3'' = Some (Returned () s') \<and>
      get_node s' ''B2'' = Returned 1 s' \<and> get_node s' ''B3'' = Returned 2 s' \<and>
      2 \<in> destinations (nodes s' ! 1) \<and> 1 \<in> sources (nodes s' ! 2) \<and>
      1 \<notin> destinations (nodes s' ! 2))"
proof -
  have i: "identifiers example_state ''B2'' = Some 1" "identifiers example_state ''B3'' = Some 2"
    unfolding example_state_def by code_simp+
  have ne: "''B2'' \<noteq> ''B3''" by simp
  have nc: "Connect ''B3'' ''B2'' \<notin> set example_calls" by (simp add: example_calls_def)
  from connect_records_edge[OF example_run i] ne nc example_run i show ?thesis by blast
qed

end
